theory Spec2Isabelle
  imports Main "HOL-Library.Char_ord" "HOL-Library.Sublist"
begin

section \<open>Tokens (Token.h)\<close>

datatype TokenType =
  Keyword | Identifier | Integer | Real | Operator | Separator | String | Unknown | EndOfFile

section \<open>The scanner (Lexer.h, Lexer.cpp)\<close>

text \<open>
  The members of class \<open>Lexer\<close>. The stream \<open>in\<close> is the list of characters not
  yet read (field \<open>input\<close>); \<open>line\<close> and \<open>col\<close> are \<open>size_t\<close> counters, modelled
  as naturals.
\<close>

record Lexer =
  input :: string
  current :: char
  eof :: bool
  line :: nat
  col :: nat

record Token =
  type :: TokenType
  lexeme :: string
  line :: nat
  col :: nat

text \<open>The character classes of \<open><cctype>\<close> in the C locale, on unsigned bytes.\<close>

definition isspace :: "char \<Rightarrow> bool" where
  "isspace c = (c = CHR '' '' \<or> (CHR 0x09 \<le> c \<and> c \<le> CHR 0x0D))"

definition isdigit :: "char \<Rightarrow> bool" where
  "isdigit c = (CHR ''0'' \<le> c \<and> c \<le> CHR ''9'')"

definition tolower :: "char \<Rightarrow> char" where
  "tolower c =
     (case map_of (zip ''ABCDEFGHIJKLMNOPQRSTUVWXYZ'' ''abcdefghijklmnopqrstuvwxyz'') c of
        None \<Rightarrow> c
      | Some l \<Rightarrow> l)"

definition isLetter :: "char \<Rightarrow> bool" where
  "isLetter c = ((CHR ''A'' \<le> c \<and> c \<le> CHR ''Z'') \<or> (CHR ''a'' \<le> c \<and> c \<le> CHR ''z''))"

definition isIdentRest :: "char \<Rightarrow> bool" where
  "isIdentRest c = (isLetter c \<or> isdigit c \<or> c = CHR ''$'' \<or> c = CHR ''_'')"

text \<open>
  \<open>Lexer::advance\<close>: \<open>in.get()\<close> takes the next character of the stream; at the end of
  the stream the flag \<open>eof\<close> is set and \<open>current\<close> becomes the NUL character.
\<close>

definition advance :: "Lexer \<Rightarrow> Lexer" where
  "advance lx =
     (case input lx of
        [] \<Rightarrow> lx\<lparr>eof := True, current := CHR 0x00\<rparr>
      | ch # cs \<Rightarrow>
          (if ch = CHR 0x0A
           then lx\<lparr>input := cs, current := ch, Lexer.line := Lexer.line lx + 1, Lexer.col := 0\<rparr>
           else lx\<lparr>input := cs, current := ch, Lexer.col := Lexer.col lx + 1\<rparr>))"

text \<open>
  \<open>Lexer::peek\<close>: \<open>static_cast<char>(in.peek())\<close>; at the end of the stream
  \<open>in.peek()\<close> is \<open>EOF = -1\<close>, whose cast to \<open>char\<close> is the byte \<open>0xFF\<close>.
\<close>

definition peek :: "Lexer \<Rightarrow> char" where
  "peek lx = (case input lx of [] \<Rightarrow> CHR 0xFF | ch # cs \<Rightarrow> ch)"

text \<open>The constructor \<open>Lexer::Lexer\<close>: the member initialisers, then one \<open>advance()\<close>.\<close>

definition new_Lexer :: "string \<Rightarrow> Lexer" where
  "new_Lexer s = advance \<lparr>input = s, current = CHR 0x00, eof = False, Lexer.line = 1, Lexer.col = 0\<rparr>"

text \<open>
  The number of characters the scanner has still to consume, the current one included:
  the measure under which the scanner's loops terminate.
\<close>

definition remaining :: "Lexer \<Rightarrow> nat" where
  "remaining lx = (if eof lx then 0 else Suc (length (input lx)))"

lemma remaining_advance: "\<not> eof lx \<Longrightarrow> remaining (advance lx) < remaining lx"
  by (simp add: remaining_def advance_def split: list.splits)

lemma remaining_advance_le: "remaining (advance lx) \<le> remaining lx"
  by (simp add: remaining_def advance_def split: list.splits)

text \<open>\<open>Lexer::skipSpace\<close>: \<open>while (!eof && isspace(current)) advance();\<close>\<close>

function skipSpace :: "Lexer \<Rightarrow> Lexer" where
  "skipSpace lx = (if \<not> eof lx \<and> isspace (current lx) then skipSpace (advance lx) else lx)"
  by pat_completeness auto
termination
  by (relation "measure remaining") (auto simp: remaining_advance)

declare skipSpace.simps [simp del]

text \<open>
  The scanner's three collecting loops have one shape,
  \<open>while (!eof && P(current)) { lex.push_back(current); advance(); }\<close>,
  with \<open>P\<close> the test \<open>current != '"'\<close> in \<open>scanString\<close>, \<open>isIdentRest\<close> in
  \<open>scanIdentifierFSM\<close> and \<open>isdigit\<close> in \<open>scanNumberFSM\<close> and
  \<open>scanRealStartingWithDot\<close>. The loop returns the lexeme and the scanner's state.
\<close>

function scanWhile :: "(char \<Rightarrow> bool) \<Rightarrow> string \<Rightarrow> Lexer \<Rightarrow> string \<times> Lexer" where
  "scanWhile P lexm lx =
     (if \<not> eof lx \<and> P (current lx) then scanWhile P (lexm @ [current lx]) (advance lx)
      else (lexm, lx))"
  by pat_completeness auto
termination
  by (relation "measure (\<lambda>(P, lexm, lx). remaining lx)") (auto simp: remaining_advance)

declare scanWhile.simps [simp del]

text \<open>A token carries the scanner's position after its last character was consumed.\<close>

definition mkToken :: "TokenType \<Rightarrow> string \<Rightarrow> Lexer \<Rightarrow> Token \<times> Lexer" where
  "mkToken t lexm lx = (\<lparr>type = t, lexeme = lexm, line = Lexer.line lx, col = Lexer.col lx\<rparr>, lx)"

definition scanString :: "Lexer \<Rightarrow> Token \<times> Lexer" where
  "scanString lx =
     (let (lexm, lx1) = scanWhile (\<lambda>c. c \<noteq> CHR 0x22) [] (advance lx);
          lx2 = (if \<not> eof lx1 then advance lx1 else lx1)
      in mkToken String lexm lx2)"

text \<open>The keyword table, compared case-insensitively.\<close>

definition isKeyword :: "string \<Rightarrow> bool" where
  "isKeyword s =
     (map tolower s \<in> set [''integer'', ''int'', ''real'', ''if'', ''else'', ''fi'',
                             ''while'', ''return'', ''get'', ''put''])"

definition scanIdentifierFSM :: "Lexer \<Rightarrow> Token \<times> Lexer" where
  "scanIdentifierFSM lx =
     (let (lexm, lx1) = scanWhile isIdentRest [current lx] (advance lx)
      in if isKeyword lexm then mkToken Keyword lexm lx1 else mkToken Identifier lexm lx1)"

definition scanNumberFSM :: "Lexer \<Rightarrow> Token \<times> Lexer" where
  "scanNumberFSM lx =
     (let (lexm, lx1) = scanWhile isdigit [] lx
      in if \<not> eof lx1 \<and> current lx1 = CHR ''.'' \<and> isdigit (peek lx1)
         then (let (lexm2, lx2) = scanWhile isdigit (lexm @ [current lx1]) (advance lx1)
               in mkToken Real lexm2 lx2)
         else mkToken Integer lexm lx1)"

definition scanRealStartingWithDot :: "Lexer \<Rightarrow> Token \<times> Lexer" where
  "scanRealStartingWithDot lx =
     (let (lexm, lx1) = scanWhile isdigit [current lx] (advance lx)
      in mkToken Real lexm lx1)"

definition isSeparator :: "char \<Rightarrow> bool" where
  "isSeparator c = (c \<in> set ''(){}[],;'')"

definition isOperatorStart :: "char \<Rightarrow> bool" where
  "isOperatorStart c = (c \<in> set ''+-*/=<>!&|'')"

definition scanOpOrSep :: "Lexer \<Rightarrow> Token \<times> Lexer" where
  "scanOpOrSep lx =
     (let c = current lx; p = peek lx in
      if (c = CHR ''<'' \<and> p = CHR ''='') \<or> (c = CHR ''>'' \<and> p = CHR ''='') \<or>
         (c = CHR ''='' \<and> p = CHR ''='') \<or> (c = CHR ''!'' \<and> p = CHR ''='') \<or>
         (c = CHR ''&'' \<and> p = CHR ''&'') \<or> (c = CHR ''|'' \<and> p = CHR ''|'')
      then mkToken Operator [c, p] (advance (advance lx))
      else if isOperatorStart c \<and> \<not> (c = CHR ''!'' \<or> c = CHR ''&'' \<or> c = CHR ''|'')
      then mkToken Operator [c] (advance lx)
      else if isSeparator c
      then mkToken Separator [c] (advance lx)
      else if c = CHR ''!'' \<or> c = CHR ''&'' \<or> c = CHR ''|''
      then mkToken Operator [c] (advance lx)
      else mkToken Unknown [c] (advance lx))"

text \<open>\<open>Lexer::nextToken\<close>, the dispatcher.\<close>

definition nextToken :: "Lexer \<Rightarrow> Token \<times> Lexer" where
  "nextToken lx0 =
     (let lx = skipSpace lx0 in
      if eof lx then mkToken EndOfFile [] lx
      else if current lx = CHR 0x22 then scanString lx
      else if current lx = CHR ''.'' \<and> isdigit (peek lx) then scanRealStartingWithDot lx
      else if isLetter (current lx) then scanIdentifierFSM lx
      else if isdigit (current lx) then scanNumberFSM lx
      else if isSeparator (current lx) \<or> isOperatorStart (current lx) then scanOpOrSep lx
      else mkToken Unknown [current lx] (advance lx))"

subsection \<open>Every token but end-of-input consumes a character\<close>

lemma skipSpace_remaining: "remaining (skipSpace lx) \<le> remaining lx"
proof (induction lx rule: skipSpace.induct)
  case (1 lx)
  show ?case
  proof (cases "\<not> eof lx \<and> isspace (current lx)")
    case True
    then have "remaining (skipSpace (advance lx)) \<le> remaining (advance lx)"
      using "1.IH" by simp
    also have "\<dots> \<le> remaining lx" by (rule remaining_advance_le)
    finally show ?thesis using True by (subst skipSpace.simps) simp
  next
    case False
    then show ?thesis by (subst skipSpace.simps) auto
  qed
qed

lemma scanWhile_remaining: "remaining (snd (scanWhile P l lx)) \<le> remaining lx"
proof (induction P l lx rule: scanWhile.induct)
  case (1 P l lx)
  show ?case
  proof (cases "\<not> eof lx \<and> P (current lx)")
    case True
    then have "remaining (snd (scanWhile P (l @ [current lx]) (advance lx))) \<le> remaining (advance lx)"
      using "1.IH" by simp
    also have "\<dots> \<le> remaining lx" by (rule remaining_advance_le)
    finally show ?thesis using True by (subst scanWhile.simps) simp
  next
    case False
    then show ?thesis by (subst scanWhile.simps) auto
  qed
qed

lemma scanWhile_advance_less:
  "\<not> eof lx \<Longrightarrow> remaining (snd (scanWhile P l (advance lx))) < remaining lx"
  using scanWhile_remaining [of P l "advance lx"] remaining_advance [of lx] by simp

lemma scanString_remaining: "\<not> eof lx \<Longrightarrow> remaining (snd (scanString lx)) < remaining lx"
  using scanWhile_advance_less [of lx "\<lambda>c. c \<noteq> CHR 0x22" "[]"]
    remaining_advance_le [of "snd (scanWhile (\<lambda>c. c \<noteq> CHR 0x22) [] (advance lx))"]
  by (auto simp: scanString_def mkToken_def Let_def split: prod.splits)

lemma scanIdentifierFSM_remaining:
  "\<not> eof lx \<Longrightarrow> remaining (snd (scanIdentifierFSM lx)) < remaining lx"
  using scanWhile_advance_less [of lx isIdentRest "[current lx]"]
  by (auto simp: scanIdentifierFSM_def mkToken_def split: prod.splits)

lemma scanRealStartingWithDot_remaining:
  "\<not> eof lx \<Longrightarrow> remaining (snd (scanRealStartingWithDot lx)) < remaining lx"
  using scanWhile_advance_less [of lx isdigit "[current lx]"]
  by (auto simp: scanRealStartingWithDot_def mkToken_def split: prod.splits)

lemma scanWhile_first_less:
  "\<not> eof lx \<Longrightarrow> P (current lx) \<Longrightarrow> remaining (snd (scanWhile P l lx)) < remaining lx"
  using scanWhile_advance_less [of lx P "l @ [current lx]"]
  by (subst scanWhile.simps) simp

lemma scanNumberFSM_remaining:
  assumes "\<not> eof lx" "isdigit (current lx)"
  shows "remaining (snd (scanNumberFSM lx)) < remaining lx"
proof -
  obtain l1 lx1 where s1: "scanWhile isdigit [] lx = (l1, lx1)" by (cases "scanWhile isdigit [] lx")
  have a: "remaining lx1 < remaining lx"
    using scanWhile_first_less [of lx isdigit "[]"] assms s1 by simp
  have b: "remaining (snd (scanWhile isdigit (l1 @ [current lx1]) (advance lx1))) \<le> remaining lx1"
    using scanWhile_remaining [of isdigit _ "advance lx1"] remaining_advance_le [of lx1]
    by (meson le_trans)
  show ?thesis using a b s1
    by (auto simp: scanNumberFSM_def mkToken_def split: prod.splits)
qed

lemma scanOpOrSep_remaining: "\<not> eof lx \<Longrightarrow> remaining (snd (scanOpOrSep lx)) < remaining lx"
  using remaining_advance [of lx] remaining_advance_le [of "advance lx"]
  by (auto simp: scanOpOrSep_def mkToken_def Let_def)

lemma nextToken_not_eof_less:
  assumes ne: "\<not> eof (skipSpace lx)"
  shows "remaining (snd (nextToken lx)) < remaining lx"
proof -
  let ?s = "skipSpace lx"
  have "remaining (snd (nextToken lx)) < remaining ?s"
    using ne scanString_remaining [OF ne] scanRealStartingWithDot_remaining [OF ne]
      scanIdentifierFSM_remaining [OF ne] scanNumberFSM_remaining [OF ne]
      scanOpOrSep_remaining [OF ne] remaining_advance [OF ne]
    by (simp add: nextToken_def Let_def mkToken_def)
  then show ?thesis using skipSpace_remaining [of lx] by simp
qed

lemma nextToken_remaining_less:
  assumes "type (fst (nextToken lx)) \<noteq> EndOfFile"
  shows "remaining (snd (nextToken lx)) < remaining lx"
proof -
  have "\<not> eof (skipSpace lx)" using assms by (auto simp: nextToken_def Let_def mkToken_def)
  then show ?thesis by (rule nextToken_not_eof_less)
qed

lemma nextToken_remaining_le: "remaining (snd (nextToken lx)) \<le> remaining lx"
proof (cases "eof (skipSpace lx)")
  case True
  then show ?thesis using skipSpace_remaining [of lx]
    by (simp add: nextToken_def Let_def mkToken_def)
next
  case False
  then show ?thesis using nextToken_not_eof_less [of lx] by simp
qed

section \<open>The parser (parser.h, parser.cpp)\<close>

datatype StartSymbol = Start_Program | Start_Statement | Start_Expression

datatype Rule =
  Rule_Rat25F | Rule_OptFuncDefs | Rule_FuncDefs | Rule_FuncDefsPrime | Rule_Function
| Rule_OptParamList | Rule_ParamList | Rule_ParamListPrime | Rule_Parameter | Rule_Qualifier
| Rule_Body | Rule_OptDeclList | Rule_DeclList | Rule_DeclListPrime | Rule_Declaration
| Rule_IDs | Rule_IDsPrime
| Rule_StatementList | Rule_StatementListPrime | Rule_Statement | Rule_Compound | Rule_Assign
| Rule_If | Rule_OptElse | Rule_Return | Rule_Print | Rule_Scan | Rule_While
| Rule_Condition | Rule_Relop | Rule_Expression | Rule_ExpressionPrime | Rule_Term
| Rule_TermPrime | Rule_Factor | Rule_Primary | Rule_PrimaryPrime

record TraceConfig =
  master :: bool
  hideEpsilon :: bool
  hideOpt :: bool
  hideScaffolding :: bool
  enabled :: "Rule set"

record ParserPolicy =
  echoTokens :: bool
  lenientKeywords :: bool
  allowStringPrimary :: bool

text \<open>The default member initialisers of \<open>TraceConfig\<close> and \<open>ParserPolicy\<close>.\<close>

definition default_TraceConfig :: TraceConfig where
  "default_TraceConfig =
     \<lparr>master = True, hideEpsilon = True, hideOpt = True, hideScaffolding = True,
      enabled = {Rule_Statement, Rule_Assign, Rule_If, Rule_Return, Rule_Print, Rule_Scan,
                 Rule_While}\<rparr>"

definition default_ParserPolicy :: ParserPolicy where
  "default_ParserPolicy = \<lparr>echoTokens = True, lenientKeywords = True, allowStringPrimary = True\<rparr>"

text \<open>
  What the parser writes, in order: \<open>Emit text\<close> is a call \<open>sink_->emit(text)\<close> of the
  production sink, \<open>Cout text\<close> is a line that \<open>echoToken\<close> writes to \<open>std::cout\<close>.
\<close>

datatype event = Emit string | Cout string

text \<open>
  The members of class \<open>Parser\<close>: \<open>lex_\<close>, \<open>tok_\<close>, \<open>trace_\<close>, \<open>policy_\<close>, and the
  lines written so far to \<open>sink_\<close> and \<open>std::cout\<close>.
\<close>

record Parser =
  lexer :: Lexer
  tok :: Token
  trace :: TraceConfig
  policy :: ParserPolicy
  out :: "event list"

text \<open>
  A \<open>ParseError\<close> is thrown with its message. A procedure either returns or throws, and
  in both cases leaves the parser (and the lines already written) behind; \<open>None\<close> is a
  run that did not finish within its recursion budget.
\<close>

datatype error = ParseError string

datatype outcome = Returned | Thrown error

type_synonym result = "(outcome \<times> Parser) option"

definition prettyTokenKind :: "TokenType \<Rightarrow> string" where
  "prettyTokenKind t =
     (case t of
        Identifier \<Rightarrow> ''Identifier'' | Keyword \<Rightarrow> ''Keyword'' | Integer \<Rightarrow> ''Integer''
      | Real \<Rightarrow> ''Real'' | Operator \<Rightarrow> ''Operator'' | Separator \<Rightarrow> ''Separator''
      | String \<Rightarrow> ''String'' | Unknown \<Rightarrow> ''Unknown'' | EndOfFile \<Rightarrow> ''EOF'')"

text \<open>\<open>contains(s, sub)\<close> is \<open>s.find(sub) != npos\<close>: \<open>sub\<close> occurs in \<open>s\<close>.\<close>

fun contains :: "string \<Rightarrow> string \<Rightarrow> bool" where
  "contains [] sub = (sub = [])"
| "contains (c # cs) sub = (prefix sub (c # cs) \<or> contains cs sub)"

text \<open>\<open>std::to_string\<close> of a \<open>size_t\<close>: its decimal digits.\<close>

fun to_string :: "nat \<Rightarrow> string" where
  "to_string n =
     (if n < 10 then [''0123456789'' ! n]
      else to_string (n div 10) @ [''0123456789'' ! (n mod 10)])"

declare to_string.simps [simp del]

text \<open>The two bytes of the UTF-8 encoding of the letter epsilon, as the source file has it.\<close>

definition epsilon :: string where
  "epsilon = [CHR 0xCE, CHR 0xB5]"

text \<open>The constructor \<open>Parser::Parser\<close> stores its arguments and calls \<open>advance()\<close>.\<close>

definition Parser_advance :: "Parser \<Rightarrow> Parser" where
  "Parser_advance p = (let (t, lx) = nextToken (lexer p) in p\<lparr>tok := t, lexer := lx\<rparr>)"

definition new_Parser :: "Lexer \<Rightarrow> TraceConfig \<Rightarrow> ParserPolicy \<Rightarrow> Parser" where
  "new_Parser lx tr po =
     Parser_advance
       \<lparr>lexer = lx, tok = \<lparr>type = Keyword, lexeme = [], line = 0, col = 0\<rparr>,
        trace = tr, policy = po, out = []\<rparr>"

definition isKw :: "string \<Rightarrow> Parser \<Rightarrow> bool" where
  "isKw s p =
     (if \<not> lenientKeywords (policy p) then type (tok p) = Keyword \<and> lexeme (tok p) = s
      else if type (tok p) = Keyword \<or> type (tok p) = Identifier then lexeme (tok p) = s
      else False)"

definition isOp :: "string \<Rightarrow> Parser \<Rightarrow> bool" where
  "isOp s p = (type (tok p) = Operator \<and> lexeme (tok p) = s)"

definition isSep :: "string \<Rightarrow> Parser \<Rightarrow> bool" where
  "isSep s p = (type (tok p) = Separator \<and> lexeme (tok p) = s)"

definition errorMessage :: "string \<Rightarrow> Token \<Rightarrow> string" where
  "errorMessage msg t =
     ''Syntax error: '' @ msg @ '' at line '' @ to_string (line t) @
     '', col '' @ to_string (col t) @ '' (near '' @ [CHR 0x27] @ lexeme t @ [CHR 0x27] @ '')''"

definition errorHere :: "string \<Rightarrow> Parser \<Rightarrow> result" where
  "errorHere msg p = Some (Thrown (ParseError (errorMessage msg (tok p))), p)"

definition echoToken :: "Parser \<Rightarrow> Parser" where
  "echoToken p =
     (if \<not> echoTokens (policy p) then p
      else if type (tok p) = EndOfFile then p
      else p\<lparr>out := out p @
             [Cout (''Token: '' @ prettyTokenKind (type (tok p)) @ '' Lexeme: '' @ lexeme (tok p))]\<rparr>)"

definition emit :: "string \<Rightarrow> Parser \<Rightarrow> Parser" where
  "emit text p = p\<lparr>out := out p @ [Emit text]\<rparr>"

definition prod :: "Rule \<Rightarrow> string \<Rightarrow> Parser \<Rightarrow> Parser" where
  "prod r text p =
     (if \<not> master (trace p) then p
      else if enabled (trace p) \<noteq> {} \<and> r \<notin> enabled (trace p) then p
      else if hideEpsilon (trace p) \<and> contains text epsilon then p
      else if hideOpt (trace p) \<and> contains text ''Opt '' then p
      else if hideScaffolding (trace p) \<and>
              (contains text ''Rat25F'' \<or> contains text ''Statement List'') then p
      else emit text p)"

text \<open>Sequencing: a call that cannot throw, and a block of statements run in order.\<close>

definition call :: "(Parser \<Rightarrow> Parser) \<Rightarrow> Parser \<Rightarrow> result" where
  "call f p = Some (Returned, f p)"

fun steps :: "(Parser \<Rightarrow> result) list \<Rightarrow> Parser \<Rightarrow> result" where
  "steps [] p = Some (Returned, p)"
| "steps (f # fs) p =
     (case f p of
        None \<Rightarrow> None
      | Some (Thrown e, p') \<Rightarrow> Some (Thrown e, p')
      | Some (Returned, p') \<Rightarrow> steps fs p')"

declare steps.simps [simp del]

definition expectIdentifier :: "Parser \<Rightarrow> result" where
  "expectIdentifier p =
     (if type (tok p) \<noteq> Identifier then errorHere ''identifier expected'' p
      else call (Parser_advance \<circ> echoToken) p)"

definition expectKw :: "string \<Rightarrow> Parser \<Rightarrow> result" where
  "expectKw s p =
     (if \<not> isKw s p then errorHere ([CHR 0x27] @ s @ [CHR 0x27] @ '' expected'') p
      else call (Parser_advance \<circ> echoToken) p)"

definition expectOp :: "string \<Rightarrow> Parser \<Rightarrow> result" where
  "expectOp s p =
     (if \<not> isOp s p then errorHere (''operator '' @ [CHR 0x27] @ s @ [CHR 0x27] @ '' expected'') p
      else call (Parser_advance \<circ> echoToken) p)"

definition expectSep :: "string \<Rightarrow> Parser \<Rightarrow> result" where
  "expectSep s p =
     (if \<not> isSep s p then errorHere (''separator '' @ [CHR 0x27] @ s @ [CHR 0x27] @ '' expected'') p
      else call (Parser_advance \<circ> echoToken) p)"

text \<open>
  \<open>Parser::skipBannerStrings\<close>: \<open>while (tok_.type == TokenType::String) advance();\<close>
  (no echo). Each String token consumed at least its opening quote, so the loop ends.
\<close>

function skipBannerStrings :: "Parser \<Rightarrow> Parser" where
  "skipBannerStrings p =
     (if type (tok p) = String then skipBannerStrings (Parser_advance p) else p)"
  by pat_completeness auto
termination
proof (relation "measure (\<lambda>p. remaining (lexer p) + (if type (tok p) = String then 1 else 0))")
  fix p :: Parser
  assume s: "type (tok p) = String"
  obtain t lx where n: "nextToken (lexer p) = (t, lx)" by (cases "nextToken (lexer p)")
  have "type t = String \<Longrightarrow> remaining lx < remaining (lexer p)"
    using nextToken_remaining_less [of "lexer p"] n by simp
  moreover have "remaining lx \<le> remaining (lexer p)"
    using nextToken_remaining_le [of "lexer p"] n by simp
  ultimately show "(Parser_advance p, p) \<in>
      measure (\<lambda>p. remaining (lexer p) + (if type (tok p) = String then 1 else 0))"
    using s n by (auto simp: Parser_advance_def)
qed simp

declare skipBannerStrings.simps [simp del]

text \<open>\<open>Parser::skipDocStrings\<close>, which no procedure calls: the same loop, with the echo.\<close>

function skipDocStrings :: "Parser \<Rightarrow> Parser" where
  "skipDocStrings p =
     (if type (tok p) = String then skipDocStrings (Parser_advance (echoToken p)) else p)"
  by pat_completeness auto
termination
proof (relation "measure (\<lambda>p. remaining (lexer p) + (if type (tok p) = String then 1 else 0))")
  fix p :: Parser
  assume s: "type (tok p) = String"
  have e: "lexer (echoToken p) = lexer p" by (simp add: echoToken_def)
  obtain t lx where n: "nextToken (lexer p) = (t, lx)" by (cases "nextToken (lexer p)")
  have "type t = String \<Longrightarrow> remaining lx < remaining (lexer p)"
    using nextToken_remaining_less [of "lexer p"] n by simp
  moreover have "remaining lx \<le> remaining (lexer p)"
    using nextToken_remaining_le [of "lexer p"] n by simp
  ultimately show "(Parser_advance (echoToken p), p) \<in>
      measure (\<lambda>p. remaining (lexer p) + (if type (tok p) = String then 1 else 0))"
    using s n e by (auto simp: Parser_advance_def)
qed simp

declare skipDocStrings.simps [simp del]

subsection \<open>The grammar procedures\<close>

text \<open>
  One name per procedure of the parser. The procedures call each other recursively, so
  they are one function \<open>run\<close> over these names; \<open>run n f\<close> is the body of procedure
  \<open>f\<close> with \<open>n\<close> nested calls left, and a run that needs more returns \<open>None\<close>.
\<close>

datatype proc =
  parseRat25F | parseOptFunctionDefinitions | parseFunctionDefinitions
| parseFunctionDefinitionsPrime | parseFunction | parseOptParameterList | parseParameterList
| parseParameterListPrime | parseParameter | parseQualifier | parseBody
| parseOptDeclarationList | parseDeclarationList | parseDeclarationListPrime
| parseDeclaration | parseIDs | parseIDsPrime
| parseStatementList | parseStatementListPrime | parseOptStatementList | parseStatement
| parseCompound | parseAssign | parseIf | parseOptElse | parseReturn | parsePrint | parseScan
| parseWhile
| parseCondition | parseRelop | parseExpression | parseExpressionPrime | parseTerm
| parseTermPrime | parseFactor | parsePrimary | parsePrimaryPrime

fun run :: "nat \<Rightarrow> proc \<Rightarrow> Parser \<Rightarrow> result" where
  "run 0 f = (\<lambda>p. None)"
| "run (Suc n) parseRat25F =
     steps [
       call (prod Rule_Rat25F
         ''<Rat25F> -> <Opt Function Definitions> <Opt Declaration List> <Statement List>''),
       call skipBannerStrings,
       run n parseOptFunctionDefinitions,
       call skipBannerStrings,
       run n parseOptDeclarationList,
       call skipBannerStrings,
       run n parseStatementList]"
| "run (Suc n) parseOptFunctionDefinitions =
     steps [
       call skipBannerStrings,
       (\<lambda>p. if isKw ''function'' p
            then steps [
              call (prod Rule_OptFuncDefs ''<Opt Function Definitions> -> <Function Definitions>''),
              run n parseFunctionDefinitions] p
            else call (prod Rule_OptFuncDefs (''<Opt Function Definitions> -> '' @ epsilon)) p)]"
| "run (Suc n) parseFunctionDefinitions =
     steps [
       call (prod Rule_FuncDefs ''<Function Definitions> -> <Function> <Function Definitions Prime>''),
       run n parseFunction,
       run n parseFunctionDefinitionsPrime]"
| "run (Suc n) parseFunctionDefinitionsPrime =
     steps [
       call skipBannerStrings,
       (\<lambda>p. if isKw ''function'' p
            then steps [
              call (prod Rule_FuncDefsPrime
                ''<Function Definitions Prime> -> <Function> <Function Definitions Prime>''),
              run n parseFunction,
              run n parseFunctionDefinitionsPrime] p
            else call (prod Rule_FuncDefsPrime (''<Function Definitions Prime> -> '' @ epsilon)) p)]"
| "run (Suc n) parseFunction =
     steps [
       call (prod Rule_Function
         ''<Function> -> function <Identifier> ( <Opt Parameter List> ) <Opt Declaration List> <Body>''),
       expectKw ''function'',
       expectIdentifier,
       expectSep ''('',
       run n parseOptParameterList,
       expectSep '')'',
       run n parseOptDeclarationList,
       run n parseBody]"
| "run (Suc n) parseOptParameterList =
     (\<lambda>p. if type (tok p) = Identifier
          then steps [
            call (prod Rule_OptParamList ''<Opt Parameter List> -> <Parameter List>''),
            run n parseParameterList] p
          else call (prod Rule_OptParamList (''<Opt Parameter List> -> '' @ epsilon)) p)"
| "run (Suc n) parseParameterList =
     steps [
       call (prod Rule_ParamList ''<Parameter List> -> <Parameter> <Parameter List Prime>''),
       run n parseParameter,
       run n parseParameterListPrime]"
| "run (Suc n) parseParameterListPrime =
     (\<lambda>p. if isSep '','' p
          then steps [
            call (prod Rule_ParamListPrime
              ''<Parameter List Prime> -> , <Parameter> <Parameter List Prime>''),
            expectSep '','',
            run n parseParameter,
            run n parseParameterListPrime] p
          else call (prod Rule_ParamListPrime (''<Parameter List Prime> -> '' @ epsilon)) p)"
| "run (Suc n) parseParameter =
     steps [
       call (prod Rule_Parameter ''<Parameter> -> <IDs> <Qualifier>''),
       run n parseIDs,
       run n parseQualifier]"
| "run (Suc n) parseQualifier =
     (\<lambda>p. if isKw ''integer'' p \<or> isKw ''boolean'' p \<or> isKw ''real'' p
          then steps [
            call (prod Rule_Qualifier ''<Qualifier> -> integer | boolean | real''),
            call echoToken,
            call Parser_advance] p
          else errorHere ''qualifier (integer|boolean|real) expected'' p)"
| "run (Suc n) parseBody =
     steps [
       call (prod Rule_Body ''<Body> -> { <Opt Statement List> }''),
       expectSep ''{'',
       run n parseOptStatementList,
       expectSep ''}'']"
| "run (Suc n) parseOptDeclarationList =
     (\<lambda>p. if isKw ''integer'' p \<or> isKw ''boolean'' p \<or> isKw ''real'' p
          then steps [
            call (prod Rule_OptDeclList ''<Opt Declaration List> -> <Declaration List>''),
            run n parseDeclarationList] p
          else call (prod Rule_OptDeclList (''<Opt Declaration List> -> '' @ epsilon)) p)"
| "run (Suc n) parseDeclarationList =
     steps [
       call (prod Rule_DeclList ''<Declaration List> -> <Declaration> ; <Declaration List Prime>''),
       run n parseDeclaration,
       expectSep '';'',
       run n parseDeclarationListPrime]"
| "run (Suc n) parseDeclarationListPrime =
     (\<lambda>p. if isKw ''integer'' p \<or> isKw ''boolean'' p \<or> isKw ''real'' p
          then steps [
            call (prod Rule_DeclListPrime
              ''<Declaration List Prime> -> <Declaration> ; <Declaration List Prime>''),
            run n parseDeclaration,
            expectSep '';'',
            run n parseDeclarationListPrime] p
          else call (prod Rule_DeclListPrime (''<Declaration List Prime> -> '' @ epsilon)) p)"
| "run (Suc n) parseDeclaration =
     steps [
       call (prod Rule_Declaration ''<Declaration> -> <Qualifier> <IDs>''),
       run n parseQualifier,
       run n parseIDs]"
| "run (Suc n) parseIDs =
     steps [
       call (prod Rule_IDs ''<IDs> -> <Identifier> <IDs Prime>''),
       expectIdentifier,
       run n parseIDsPrime]"
| "run (Suc n) parseIDsPrime =
     (\<lambda>p. if isSep '','' p
          then steps [
            call (prod Rule_IDsPrime ''<IDs Prime> -> , <IDs>''),
            expectSep '','',
            run n parseIDs] p
          else call (prod Rule_IDsPrime (''<IDs Prime> -> '' @ epsilon)) p)"
| "run (Suc n) parseStatementList =
     steps [
       call skipBannerStrings,
       (\<lambda>p. if type (tok p) = EndOfFile \<or> isSep ''}'' p
            then call (prod Rule_StatementList (''<Statement List> -> '' @ epsilon)) p
            else if isSep ''{'' p \<or> type (tok p) = Identifier \<or> isKw ''if'' p \<or>
                    isKw ''return'' p \<or> isKw ''put'' p \<or> isKw ''get'' p \<or> isKw ''while'' p
            then steps [
              call (prod Rule_StatementList ''<Statement List> -> <Statement> <Statement List Prime>''),
              run n parseStatement,
              run n parseStatementListPrime] p
            else call (prod Rule_StatementList (''<Statement List> -> '' @ epsilon)) p)]"
| "run (Suc n) parseStatementListPrime =
     steps [
       call skipBannerStrings,
       (\<lambda>p. if type (tok p) = EndOfFile \<or> isSep ''}'' p
            then call (prod Rule_StatementListPrime (''<Statement List Prime> -> '' @ epsilon)) p
            else if isSep ''{'' p \<or> type (tok p) = Identifier \<or> isKw ''if'' p \<or>
                    isKw ''return'' p \<or> isKw ''put'' p \<or> isKw ''get'' p \<or> isKw ''while'' p
            then steps [
              call (prod Rule_StatementListPrime
                ''<Statement List Prime> -> <Statement> <Statement List Prime>''),
              run n parseStatement,
              run n parseStatementListPrime] p
            else call (prod Rule_StatementListPrime (''<Statement List Prime> -> '' @ epsilon)) p)]"
| "run (Suc n) parseOptStatementList =
     (\<lambda>p. if type (tok p) = EndOfFile \<or> isSep ''}'' p
          then call (prod Rule_StatementList (''<Statement List> -> '' @ epsilon)) p
          else run n parseStatementList p)"
| "run (Suc n) parseStatement =
     (\<lambda>p. if type (tok p) = String
          then steps [
            call Parser_advance,
            call (prod Rule_Statement (''<Statement> -> '' @ epsilon))] p
          else if isSep ''{'' p
          then steps [call (prod Rule_Statement ''<Statement> -> <Compound>''),
                      run n parseCompound] p
          else if type (tok p) = Identifier
          then steps [call (prod Rule_Statement ''<Statement> -> <Assign>''),
                      run n parseAssign] p
          else if isKw ''if'' p
          then steps [call (prod Rule_Statement ''<Statement> -> <If>''),
                      run n parseIf] p
          else if isKw ''return'' p
          then steps [call (prod Rule_Statement ''<Statement> -> <Return>''),
                      run n parseReturn] p
          else if isKw ''put'' p
          then steps [call (prod Rule_Statement ''<Statement> -> <Print>''),
                      run n parsePrint] p
          else if isKw ''get'' p
          then steps [call (prod Rule_Statement ''<Statement> -> <Scan>''),
                      run n parseScan] p
          else if isKw ''while'' p
          then steps [call (prod Rule_Statement ''<Statement> -> <While>''),
                      run n parseWhile] p
          else errorHere ''statement expected'' p)"
| "run (Suc n) parseCompound =
     steps [
       call (prod Rule_Compound ''<Compound> -> { <Statement List> }''),
       expectSep ''{'',
       run n parseStatementList,
       expectSep ''}'']"
| "run (Suc n) parseAssign =
     steps [
       call (prod Rule_Assign ''<Assign> -> <Identifier> = <Expression> ;''),
       expectIdentifier,
       expectOp ''='',
       run n parseExpression,
       expectSep '';'']"
| "run (Suc n) parseIf =
     steps [
       call (prod Rule_If ''<If> -> if ( <Condition> ) <Statement> <OptElse> fi''),
       expectKw ''if'',
       expectSep ''('',
       run n parseCondition,
       expectSep '')'',
       run n parseStatement,
       run n parseOptElse,
       expectKw ''fi'']"
| "run (Suc n) parseOptElse =
     (\<lambda>p. if isKw ''else'' p
          then steps [
            call (prod Rule_OptElse ''<OptElse> -> else <Statement>''),
            expectKw ''else'',
            run n parseStatement] p
          else call (prod Rule_OptElse (''<OptElse> -> '' @ epsilon)) p)"
| "run (Suc n) parseReturn =
     steps [
       call (prod Rule_Return ''<Return> -> return ; | return <Expression> ;''),
       expectKw ''return'',
       (\<lambda>p. if isSep '';'' p then expectSep '';'' p
            else steps [run n parseExpression, expectSep '';''] p)]"
| "run (Suc n) parsePrint =
     steps [
       call (prod Rule_Print ''<Print> -> put ( <Expression> ) ;''),
       expectKw ''put'',
       expectSep ''('',
       run n parseExpression,
       expectSep '')'',
       expectSep '';'']"
| "run (Suc n) parseScan =
     steps [
       call (prod Rule_Scan ''<Scan> -> get ( <IDs> ) ;''),
       expectKw ''get'',
       expectSep ''('',
       run n parseIDs,
       expectSep '')'',
       expectSep '';'']"
| "run (Suc n) parseWhile =
     steps [
       call (prod Rule_While ''<While> -> while ( <Condition> ) <Statement>''),
       expectKw ''while'',
       expectSep ''('',
       run n parseCondition,
       expectSep '')'',
       run n parseStatement]"
| "run (Suc n) parseCondition =
     steps [
       call (prod Rule_Condition ''<Condition> -> <Expression> <Relop> <Expression>''),
       run n parseExpression,
       run n parseRelop,
       run n parseExpression]"
| "run (Suc n) parseRelop =
     (\<lambda>p. if isOp ''=='' p \<or> isOp ''!='' p \<or> isOp ''>'' p \<or> isOp ''<'' p \<or> isOp ''<='' p \<or>
             isOp ''>='' p
          then steps [
            call (\<lambda>p. if master (trace p) \<and> Rule_Relop \<in> enabled (trace p)
                      then emit (''<Relop> -> '' @ lexeme (tok p)) p else p),
            call echoToken,
            call Parser_advance] p
          else errorHere ''relational operator expected'' p)"
| "run (Suc n) parseExpression =
     steps [
       call (prod Rule_Expression ''<Expression> -> <Term> <Expression Prime>''),
       run n parseTerm,
       run n parseExpressionPrime]"
| "run (Suc n) parseExpressionPrime =
     (\<lambda>p. if isOp ''+'' p
          then steps [
            call (prod Rule_ExpressionPrime ''<Expression Prime> -> + <Term> <Expression Prime>''),
            expectOp ''+'',
            run n parseTerm,
            run n parseExpressionPrime] p
          else if isOp ''-'' p
          then steps [
            call (prod Rule_ExpressionPrime ''<Expression Prime> -> - <Term> <Expression Prime>''),
            expectOp ''-'',
            run n parseTerm,
            run n parseExpressionPrime] p
          else call (prod Rule_ExpressionPrime (''<Expression Prime> -> '' @ epsilon)) p)"
| "run (Suc n) parseTerm =
     steps [
       call (prod Rule_Term ''<Term> -> <Factor> <Term Prime>''),
       run n parseFactor,
       run n parseTermPrime]"
| "run (Suc n) parseTermPrime =
     (\<lambda>p. if isOp ''*'' p
          then steps [
            call (prod Rule_TermPrime ''<Term Prime> -> * <Factor> <Term Prime>''),
            expectOp ''*'',
            run n parseFactor,
            run n parseTermPrime] p
          else if isOp ''/'' p
          then steps [
            call (prod Rule_TermPrime ''<Term Prime> -> / <Factor> <Term Prime>''),
            expectOp ''/'',
            run n parseFactor,
            run n parseTermPrime] p
          else call (prod Rule_TermPrime (''<Term Prime> -> '' @ epsilon)) p)"
| "run (Suc n) parseFactor =
     (\<lambda>p. if isOp ''-'' p
          then steps [
            call (prod Rule_Factor ''<Factor> -> - <Primary>''),
            expectOp ''-'',
            run n parsePrimary] p
          else steps [
            call (prod Rule_Factor ''<Factor> -> <Primary>''),
            run n parsePrimary] p)"
| "run (Suc n) parsePrimary =
     (\<lambda>p. if type (tok p) = Identifier
          then steps [
            call (prod Rule_Primary ''<Primary> -> <Identifier> <Primary Prime>''),
            expectIdentifier,
            run n parsePrimaryPrime] p
          else if type (tok p) = Integer
          then steps [call (prod Rule_Primary ''<Primary> -> <Integer>''),
                      call echoToken, call Parser_advance] p
          else if type (tok p) = Real
          then steps [call (prod Rule_Primary ''<Primary> -> <Real>''),
                      call echoToken, call Parser_advance] p
          else if isSep ''('' p
          then steps [
            call (prod Rule_Primary ''<Primary> -> ( <Expression> )''),
            expectSep ''('',
            run n parseExpression,
            expectSep '')''] p
          else if (lexeme (tok p) = ''true'' \<or> lexeme (tok p) = ''false'') \<and>
                  (type (tok p) = Identifier \<or> type (tok p) = Keyword)
          then steps [call (prod Rule_Primary ''<Primary> -> true | false''),
                      call echoToken, call Parser_advance] p
          else if allowStringPrimary (policy p) \<and> type (tok p) = String
          then steps [call (prod Rule_Primary ''<Primary> -> <String>''),
                      call echoToken, call Parser_advance] p
          else errorHere ''primary expected'' p)"
| "run (Suc n) parsePrimaryPrime =
     (\<lambda>p. if isSep ''('' p
          then steps [
            call (prod Rule_PrimaryPrime ''<Primary Prime> -> ( <IDs> )''),
            expectSep ''('',
            run n parseIDs,
            expectSep '')''] p
          else call (prod Rule_PrimaryPrime (''<Primary Prime> -> '' @ epsilon)) p)"

text \<open>\<open>Parser::parse\<close>, the entry point.\<close>

definition parse :: "nat \<Rightarrow> StartSymbol \<Rightarrow> Parser \<Rightarrow> result" where
  "parse n start =
     (case start of
        Start_Program \<Rightarrow> run n parseRat25F
      | Start_Statement \<Rightarrow> run n parseStatement
      | Start_Expression \<Rightarrow> run n parseExpression)"

section \<open>Notions used in the statements\<close>

text \<open>
  The first-set of a statement in the specification's words: the separator \<open>{\<close>, an
  Identifier, or one of the keywords \<open>if\<close>, \<open>return\<close>, \<open>put\<close>, \<open>get\<close>, \<open>while\<close>.
\<close>

definition firstOfStatement :: "Token \<Rightarrow> bool" where
  "firstOfStatement t =
     ((type t = Separator \<and> lexeme t = ''{'') \<or> type t = Identifier \<or>
      (type t = Keyword \<and> lexeme t \<in> set [''if'', ''return'', ''put'', ''get'', ''while'']))"




text \<open>The tokens the scanner produces from a state on, up to end-of-input.\<close>

function tokens :: "Lexer \<Rightarrow> Token list" where
  "tokens lx =
     (if type (fst (nextToken lx)) = EndOfFile then []
      else fst (nextToken lx) # tokens (snd (nextToken lx)))"
  by pat_completeness auto
termination
  by (relation "measure remaining") (auto simp: nextToken_remaining_less)

declare tokens.simps [simp del]

text \<open>The tokens still ahead of the parser: its lookahead, then the rest of the stream.\<close>

definition pending :: "Parser \<Rightarrow> Token list" where
  "pending p = (if type (tok p) = EndOfFile then [] else tok p # tokens (lexer p))"

text \<open>The line \<open>echoToken\<close> writes for a token, and the echo lines among the output.\<close>

definition echoLine :: "Token \<Rightarrow> string" where
  "echoLine t = ''Token: '' @ prettyTokenKind (type t) @ '' Lexeme: '' @ lexeme t"

fun echoes :: "event list \<Rightarrow> string list" where
  "echoes [] = []"
| "echoes (Cout l # es) = l # echoes es"
| "echoes (Emit l # es) = echoes es"

text \<open>
  The lookahead is end-of-input only when the scanner is exhausted: true of every state
  the parser reaches, since the lookahead always comes from \<open>nextToken\<close>.
\<close>

definition lookaheadOk :: "Parser \<Rightarrow> bool" where
  "lookaheadOk p = (type (tok p) \<noteq> EndOfFile \<or> eof (lexer p))"

text \<open>
  From \<open>p\<close> to \<open>p'\<close> the parser consumed the tokens \<open>cs\<close> and echoed the tokens \<open>es\<close>:
  \<open>es\<close> is \<open>cs\<close> with some String tokens left out.
\<close>

definition consumed :: "Parser \<Rightarrow> Parser \<Rightarrow> Token list \<Rightarrow> Token list \<Rightarrow> bool" where
  "consumed p p' cs es =
     (pending p = cs @ pending p' \<and>
      echoes (out p') = echoes (out p) @ (if echoTokens (policy p) then map echoLine es else []) \<and>
      subseq es cs \<and>
      filter (\<lambda>t. type t \<noteq> String) es = filter (\<lambda>t. type t \<noteq> String) cs)"

definition echoFaithful :: "(Parser \<Rightarrow> result) \<Rightarrow> bool" where
  "echoFaithful f =
     (\<forall>p r p'. lookaheadOk p \<and> f p = Some (r, p') \<longrightarrow>
        lookaheadOk p' \<and> policy p' = policy p \<and> (\<exists>cs es. consumed p p' cs es))"

text \<open>
  A token re-lexes when the scanner, run on the token's lexeme alone, returns a token of
  the same kind with the same lexeme, and end-of-input after it.
\<close>

definition relexes :: "Token \<Rightarrow> bool" where
  "relexes t =
     (type (fst (nextToken (new_Lexer (lexeme t)))) = type t \<and>
      lexeme (fst (nextToken (new_Lexer (lexeme t)))) = lexeme t \<and>
      type (fst (nextToken (snd (nextToken (new_Lexer (lexeme t)))))) = EndOfFile)"

text \<open>The test of \<open>scanOpOrSep\<close> for the two-character operators.\<close>

definition twoCharOp :: "char \<Rightarrow> char \<Rightarrow> bool" where
  "twoCharOp c p =
     ((c = CHR ''<'' \<and> p = CHR ''='') \<or> (c = CHR ''>'' \<and> p = CHR ''='') \<or>
      (c = CHR ''='' \<and> p = CHR ''='') \<or> (c = CHR ''!'' \<and> p = CHR ''='') \<or>
      (c = CHR ''&'' \<and> p = CHR ''&'') \<or> (c = CHR ''|'' \<and> p = CHR ''|''))"

text \<open>The kind \<open>scanOpOrSep\<close> gives to a single character.\<close>

definition oneCharKind :: "char \<Rightarrow> TokenType" where
  "oneCharKind c =
     (if isOperatorStart c \<and> \<not> (c = CHR ''!'' \<or> c = CHR ''&'' \<or> c = CHR ''|'') then Operator
      else if isSeparator c then Separator
      else if c = CHR ''!'' \<or> c = CHR ''&'' \<or> c = CHR ''|'' then Operator
      else Unknown)"

section \<open>Properties of the scanner\<close>

lemmas char_class_defs = isspace_def isdigit_def isLetter_def isIdentRest_def isSeparator_def
  isOperatorStart_def tolower_def isKeyword_def

lemmas scanner_defs = nextToken_def new_Lexer_def advance_def peek_def mkToken_def
  scanString_def scanIdentifierFSM_def scanNumberFSM_def scanRealStartingWithDot_def
  scanOpOrSep_def skipSpace.simps scanWhile.simps

lemma skipSpace_eof: "eof lx \<Longrightarrow> skipSpace lx = lx"
  by (subst skipSpace.simps) simp

lemma nextToken_eof:
  "eof lx \<Longrightarrow>
   nextToken lx = (\<lparr>type = EndOfFile, lexeme = [], line = Lexer.line lx, col = Lexer.col lx\<rparr>, lx)"
  by (simp add: nextToken_def skipSpace_eof mkToken_def)

lemma nextToken_eof_iterate:
  "eof lx \<Longrightarrow> ((\<lambda>l. snd (nextToken l)) ^^ k) lx = lx"
  by (induction k) (simp_all add: nextToken_eof)

lemma type_scanString: "type (fst (scanString lx)) = String"
  by (simp add: scanString_def mkToken_def Let_def split: prod.splits)

lemma type_scanRealStartingWithDot: "type (fst (scanRealStartingWithDot lx)) = Real"
  by (simp add: scanRealStartingWithDot_def mkToken_def split: prod.splits)

lemma type_scanIdentifierFSM:
  "(type (fst (scanIdentifierFSM lx)) = Keyword \<and> isKeyword (lexeme (fst (scanIdentifierFSM lx)))) \<or>
   (type (fst (scanIdentifierFSM lx)) = Identifier \<and>
    \<not> isKeyword (lexeme (fst (scanIdentifierFSM lx))))"
  by (simp add: scanIdentifierFSM_def mkToken_def split: prod.splits)

lemma type_scanNumberFSM:
  "type (fst (scanNumberFSM lx)) = Integer \<or> type (fst (scanNumberFSM lx)) = Real"
  by (simp add: scanNumberFSM_def mkToken_def split: prod.splits)

lemma type_scanOpOrSep:
  "type (fst (scanOpOrSep lx)) \<in> {Operator, Separator, Unknown}"
  by (simp add: scanOpOrSep_def mkToken_def Let_def)

lemma nextToken_cases:
  "(eof (skipSpace lx) \<and> nextToken lx = mkToken EndOfFile [] (skipSpace lx)) \<or>
   (\<not> eof (skipSpace lx) \<and>
    (nextToken lx = scanString (skipSpace lx) \<or>
     nextToken lx = scanRealStartingWithDot (skipSpace lx) \<or>
     nextToken lx = scanIdentifierFSM (skipSpace lx) \<or>
     nextToken lx = scanNumberFSM (skipSpace lx) \<or>
     nextToken lx = scanOpOrSep (skipSpace lx) \<or>
     nextToken lx = mkToken Unknown [current (skipSpace lx)] (advance (skipSpace lx))))"
  by (simp add: nextToken_def Let_def)

lemma nextToken_EndOfFile_iff:
  "type (fst (nextToken lx)) = EndOfFile \<longleftrightarrow> eof (skipSpace lx)"
  using nextToken_cases [of lx] type_scanString [of "skipSpace lx"]
    type_scanRealStartingWithDot [of "skipSpace lx"] type_scanIdentifierFSM [of "skipSpace lx"]
    type_scanNumberFSM [of "skipSpace lx"] type_scanOpOrSep [of "skipSpace lx"]
  by (auto simp: mkToken_def)

lemma nextToken_EndOfFile_eof:
  "type (fst (nextToken lx)) = EndOfFile \<Longrightarrow> eof (snd (nextToken lx))"
  using nextToken_cases [of lx] by (auto simp: nextToken_EndOfFile_iff mkToken_def)

lemma nextToken_Keyword:
  "type (fst (nextToken lx)) = Keyword \<Longrightarrow> isKeyword (lexeme (fst (nextToken lx)))"
  using nextToken_cases [of lx] type_scanString [of "skipSpace lx"]
    type_scanRealStartingWithDot [of "skipSpace lx"] type_scanIdentifierFSM [of "skipSpace lx"]
    type_scanNumberFSM [of "skipSpace lx"] type_scanOpOrSep [of "skipSpace lx"]
  by (auto simp: mkToken_def)

lemma scanWhile_step:
  "\<not> eof lx \<Longrightarrow> P (current lx) \<Longrightarrow>
   scanWhile P acc lx = scanWhile P (acc @ [current lx]) (advance lx)"
  by (subst scanWhile.simps) simp

lemma scanWhile_stop: "eof lx \<or> \<not> P (current lx) \<Longrightarrow> scanWhile P acc lx = (acc, lx)"
  by (subst scanWhile.simps) auto

lemma scanWhile_unclosed:
  "\<not> eof lx \<Longrightarrow> current lx \<noteq> CHR 0x22 \<Longrightarrow> CHR 0x22 \<notin> set (input lx) \<Longrightarrow>
   fst (scanWhile (\<lambda>c. c \<noteq> CHR 0x22) acc lx) = acc @ current lx # input lx \<and>
   eof (snd (scanWhile (\<lambda>c. c \<noteq> CHR 0x22) acc lx))"
proof (induction "input lx" arbitrary: lx acc)
  case Nil
  have a: "eof (advance lx)" using Nil(1) by (simp add: advance_def)
  show ?case using Nil a
    by (simp add: scanWhile_step scanWhile_stop)
next
  case (Cons c cs)
  have a: "\<not> eof (advance lx)" "current (advance lx) = c" "input (advance lx) = cs"
    using Cons(2) [symmetric] Cons(3) by (auto simp: advance_def)
  have "fst (scanWhile (\<lambda>c. c \<noteq> CHR 0x22) (acc @ [current lx]) (advance lx)) =
          (acc @ [current lx]) @ current (advance lx) # input (advance lx) \<and>
        eof (snd (scanWhile (\<lambda>c. c \<noteq> CHR 0x22) (acc @ [current lx]) (advance lx)))"
    using Cons(1) [of "advance lx" "acc @ [current lx]"] a Cons(2) Cons(5)
    by (metis list.set_intros(1) list.set_intros(2))
  then show ?case using Cons(2) Cons(3) Cons(4) a
    by (simp add: scanWhile_step)
qed

text \<open>
  Claim C5. On the input \<open>123.\<close> the scanner returns an Integer token with lexeme
  \<open>123\<close>, then an Unknown token with lexeme \<open>.\<close> (the trailing dot is not part of the
  number), then end-of-input; on the input \<open>.5\<close> it returns one Real token with
  lexeme \<open>.5\<close>, then end-of-input.
\<close>

theorem lex_123_dot:
  "(let (t1, lx1) = nextToken (new_Lexer ''123.'');
        (t2, lx2) = nextToken lx1;
        (t3, lx3) = nextToken lx2
    in type t1 = Integer \<and> lexeme t1 = ''123'' \<and>
       type t2 = Unknown \<and> lexeme t2 = ''.'' \<and> type t3 = EndOfFile) \<and>
   (let (t1, lx1) = nextToken (new_Lexer ''.5'');
        (t2, lx2) = nextToken lx1
    in type t1 = Real \<and> lexeme t1 = ''.5'' \<and> type t2 = EndOfFile)"
  by (simp add: scanner_defs char_class_defs)

text \<open>
  Claim C7. \<open>nextToken\<close> is a total function: every call returns one token and the
  scanner's next state. Once the input is exhausted (the flag \<open>eof\<close> is set), the call
  after any number \<open>k\<close> of further calls returns the EndOfFile token with the empty
  lexeme and leaves the scanner as it was; no call fails.
\<close>

theorem nextToken_exhausted:
  assumes "eof lx"
  shows "nextToken (((\<lambda>l. snd (nextToken l)) ^^ k) lx) =
         (\<lparr>type = EndOfFile, lexeme = [], line = Lexer.line lx, col = Lexer.col lx\<rparr>, lx)"
  using assms by (simp add: nextToken_eof_iterate nextToken_eof)

theorem nextToken_exhausted_witness:
  "eof (new_Lexer []) \<and>
   nextToken (((\<lambda>l. snd (nextToken l)) ^^ 3) (new_Lexer [])) =
     (\<lparr>type = EndOfFile, lexeme = [], line = 1, col = 0\<rparr>, new_Lexer [])"
proof -
  have e: "eof (new_Lexer [])" by (simp add: new_Lexer_def advance_def)
  show ?thesis using e nextToken_exhausted [OF e, of 3]
    by (simp add: new_Lexer_def advance_def)
qed

text \<open>
  Claim C6. When the scanner stands on a double quote that opens a string literal and
  no closing quote follows in the rest of the input, \<open>nextToken\<close> returns a String
  token whose lexeme is all the characters after the opening quote, without an error;
  the input is then exhausted, and every later call returns EndOfFile.
\<close>

theorem unterminated_string:
  assumes "\<not> eof lx" and "current lx = CHR 0x22" and "CHR 0x22 \<notin> set (input lx)"
  shows "type (fst (nextToken lx)) = String \<and>
         lexeme (fst (nextToken lx)) = input lx \<and>
         eof (snd (nextToken lx)) \<and>
         type (fst (nextToken (((\<lambda>l. snd (nextToken l)) ^^ k) (snd (nextToken lx))))) = EndOfFile \<and>
         lexeme (fst (nextToken (((\<lambda>l. snd (nextToken l)) ^^ k) (snd (nextToken lx))))) = []"
proof -
  have sk: "skipSpace lx = lx"
    using assms(2) by (subst skipSpace.simps) (simp add: isspace_def)
  have nt: "nextToken lx = scanString lx"
    using assms(1,2) by (simp add: nextToken_def sk)
  have body: "lexeme (fst (scanString lx)) = input lx \<and> eof (snd (scanString lx))"
  proof (cases "input lx")
    case Nil
    then have "eof (advance lx)" by (simp add: advance_def)
    then show ?thesis using Nil
      by (simp add: scanString_def scanWhile_stop mkToken_def Let_def)
  next
    case (Cons c cs)
    then have a: "\<not> eof (advance lx)" "current (advance lx) = c" "input (advance lx) = cs"
      using assms(1) by (auto simp: advance_def)
    have "c \<noteq> CHR 0x22" "CHR 0x22 \<notin> set cs" using assms(3) Cons by auto
    then have "fst (scanWhile (\<lambda>c. c \<noteq> CHR 0x22) [] (advance lx)) = c # cs \<and>
               eof (snd (scanWhile (\<lambda>c. c \<noteq> CHR 0x22) [] (advance lx)))"
      using scanWhile_unclosed [of "advance lx" "[]"] a by simp
    then show ?thesis using Cons
      by (auto simp: scanString_def mkToken_def Let_def split: prod.splits)
  qed
  have e: "eof (snd (nextToken lx))" using body nt by simp
  show ?thesis
    using body nt type_scanString [of lx] e
    by (simp add: nextToken_eof_iterate nextToken_eof)
qed

theorem unterminated_string_witness:
  "(let lx = new_Lexer (CHR 0x22 # ''abc def'') in
    \<not> eof lx \<and> current lx = CHR 0x22 \<and> CHR 0x22 \<notin> set (input lx) \<and>
    type (fst (nextToken lx)) = String \<and> lexeme (fst (nextToken lx)) = ''abc def'' \<and>
    type (fst (nextToken (((\<lambda>l. snd (nextToken l)) ^^ 2) (snd (nextToken lx))))) = EndOfFile)"
proof -
  let ?lx = "new_Lexer (CHR 0x22 # ''abc def'')"
  have h: "\<not> eof ?lx" "current ?lx = CHR 0x22" "CHR 0x22 \<notin> set (input ?lx)"
    by (simp_all add: new_Lexer_def advance_def)
  have i: "input ?lx = ''abc def''" by (simp add: new_Lexer_def advance_def)
  show ?thesis using h i unterminated_string [OF h, of 2] by (simp add: Let_def)
qed

section \<open>Properties of the parser\<close>

lemmas parser_defs = new_Parser_def Parser_advance_def isKw_def isOp_def isSep_def errorHere_def
  errorMessage_def echoToken_def emit_def prod_def call_def expectIdentifier_def expectKw_def
  expectOp_def expectSep_def prettyTokenKind_def epsilon_def
  default_TraceConfig_def default_ParserPolicy_def parse_def skipBannerStrings.simps
  to_string.simps steps.simps

lemma isKeyword_boolean: "\<not> isKeyword ''boolean''"
  by (simp add: char_class_defs)

lemma isKeyword_true_false: "\<not> isKeyword ''true''" "\<not> isKeyword ''false''"
  by (simp_all add: char_class_defs)

lemma tok_new_Parser: "tok (new_Parser lx tr po) = fst (nextToken lx)"
  by (simp add: new_Parser_def Parser_advance_def split: prod.splits)

text \<open>
  Claim C10. With the lenient-keywords policy disabled, a lookahead token with lexeme
  \<open>boolean\<close> that the scanner produced makes \<open>parseQualifier\<close> throw the syntax
  error "qualifier (integer|boolean|real) expected": \<open>boolean\<close> is not in the
  scanner's keyword table, so the token is not of type Keyword, and strict matching
  accepts only Keyword tokens.
\<close>

theorem parseQualifier_boolean_strict:
  assumes "\<not> lenientKeywords (policy p)"
    and "tok p = fst (nextToken lx)"
    and "lexeme (tok p) = ''boolean''"
  shows "run (Suc n) parseQualifier p =
           Some (Thrown (ParseError
             (errorMessage ''qualifier (integer|boolean|real) expected'' (tok p))), p)"
proof -
  have "type (tok p) \<noteq> Keyword"
    using nextToken_Keyword [of lx] assms(2,3) isKeyword_boolean by auto
  then show ?thesis using assms(1) by (simp add: isKw_def errorHere_def)
qed

theorem parseQualifier_boolean_strict_witness:
  "(let p = new_Parser (new_Lexer ''boolean b;'') default_TraceConfig
              (default_ParserPolicy\<lparr>lenientKeywords := False\<rparr>)
    in \<not> lenientKeywords (policy p) \<and> lexeme (tok p) = ''boolean'' \<and>
       tok p = fst (nextToken (new_Lexer ''boolean b;'')) \<and>
       run (Suc 0) parseQualifier p =
         Some (Thrown (ParseError
           (''Syntax error: qualifier (integer|boolean|real) expected at line 1, col 8 (near '' @
            [CHR 0x27] @ ''boolean'' @ [CHR 0x27] @ '')'')), p))"
proof -
  let ?lx = "new_Lexer ''boolean b;''"
  let ?p = "new_Parser ?lx default_TraceConfig (default_ParserPolicy\<lparr>lenientKeywords := False\<rparr>)"
  have t: "tok ?p = \<lparr>type = Identifier, lexeme = ''boolean'', line = 1, col = 8\<rparr>"
    by (simp add: parser_defs scanner_defs char_class_defs)
  have h1: "\<not> lenientKeywords (policy ?p)"
    by (simp add: new_Parser_def Parser_advance_def default_ParserPolicy_def split: prod.splits)
  have h2: "tok ?p = fst (nextToken ?lx)" by (rule tok_new_Parser)
  have h3: "lexeme (tok ?p) = ''boolean''" using t by simp
  have m: "errorMessage ''qualifier (integer|boolean|real) expected''
             \<lparr>type = Identifier, lexeme = ''boolean'', line = 1, col = 8\<rparr> =
           ''Syntax error: qualifier (integer|boolean|real) expected at line 1, col 8 (near '' @
            [CHR 0x27] @ ''boolean'' @ [CHR 0x27] @ '')''"
    by (simp add: errorMessage_def to_string.simps)
  have c: "run (Suc 0) parseQualifier ?p =
           Some (Thrown (ParseError
             (errorMessage ''qualifier (integer|boolean|real) expected'' (tok ?p))), ?p)"
    by (rule parseQualifier_boolean_strict [OF h1 h2 h3])
  show ?thesis unfolding Let_def using h1 h2 h3 c [unfolded t m] by blast
qed

text \<open>
  Claim C9. For a lookahead token that the scanner produced, whenever the test of the
  \<open><Primary> -> true | false\<close> alternative holds (lexeme \<open>true\<close> or \<open>false\<close>, type
  Identifier or Keyword), the token is an Identifier, because neither word is in the
  keyword table; \<open>parsePrimary\<close> then takes its first alternative,
  \<open><Primary> -> <Identifier> <Primary Prime>\<close>, and never the \<open>true | false\<close> one.
\<close>

theorem primary_true_false_unreachable:
  assumes "tok p = fst (nextToken lx)"
    and "lexeme (tok p) = ''true'' \<or> lexeme (tok p) = ''false''"
    and "type (tok p) = Identifier \<or> type (tok p) = Keyword"
  shows "type (tok p) = Identifier \<and>
         run (Suc n) parsePrimary p =
           steps [call (prod Rule_Primary ''<Primary> -> <Identifier> <Primary Prime>''),
                  expectIdentifier,
                  run n parsePrimaryPrime] p"
proof -
  have "type (tok p) \<noteq> Keyword"
    using nextToken_Keyword [of lx] assms(1,2) isKeyword_true_false by auto
  then have "type (tok p) = Identifier" using assms(3) by simp
  then show ?thesis by simp
qed

theorem primary_true_false_unreachable_witness:
  "(let p = new_Parser (new_Lexer ''true'') default_TraceConfig default_ParserPolicy
    in tok p = fst (nextToken (new_Lexer ''true'')) \<and> lexeme (tok p) = ''true'' \<and>
       type (tok p) = Identifier \<and>
       run (Suc (Suc 0)) parsePrimary p =
         steps [call (prod Rule_Primary ''<Primary> -> <Identifier> <Primary Prime>''),
                expectIdentifier,
                run (Suc 0) parsePrimaryPrime] p)"
proof -
  let ?lx = "new_Lexer ''true''"
  let ?p = "new_Parser ?lx default_TraceConfig default_ParserPolicy"
  have t: "tok ?p = \<lparr>type = Identifier, lexeme = ''true'', line = 1, col = 4\<rparr>"
    by (simp add: parser_defs scanner_defs char_class_defs)
  have h1: "tok ?p = fst (nextToken ?lx)" by (rule tok_new_Parser)
  have h2: "lexeme (tok ?p) = ''true'' \<or> lexeme (tok ?p) = ''false''" using t by simp
  have h3: "type (tok ?p) = Identifier \<or> type (tok ?p) = Keyword" using t by simp
  have hl: "lexeme (tok ?p) = ''true''" and ht: "type (tok ?p) = Identifier" using t by simp_all
  have c: "type (tok ?p) = Identifier \<and>
         run (Suc (Suc 0)) parsePrimary ?p =
           steps [call (prod Rule_Primary ''<Primary> -> <Identifier> <Primary Prime>''),
                  expectIdentifier,
                  run (Suc 0) parsePrimaryPrime] ?p"
    by (rule primary_true_false_unreachable [OF h1 h2 h3])
  show ?thesis unfolding Let_def using h1 hl ht c by blast
qed

lemma steps_call: "steps (call g # fs) p = steps fs (g p)"
  by (simp add: steps.simps call_def)

lemma steps_thrown: "f p = Some (Thrown e, p') \<Longrightarrow> steps (f # fs) p = Some (Thrown e, p')"
  by (simp add: steps.simps)

lemma steps_returned: "f p = Some (Returned, p') \<Longrightarrow> steps (f # fs) p = steps fs p'"
  by (simp add: steps.simps)

lemma steps_append:
  "steps fs p = Some (Returned, q) \<Longrightarrow> steps (fs @ gs) p = steps gs q"
proof (induction fs arbitrary: p)
  case Nil
  then show ?case by (simp add: steps.simps)
next
  case (Cons f fs)
  then show ?case
    by (cases "f p") (auto simp: steps.simps split: outcome.splits)
qed





lemma steps_single: "steps [f] p = f p"
  by (cases "f p") (auto simp: steps.simps split: outcome.splits)

lemma firstOfStatement_test:
  "(isSep ''{'' p \<or> type (tok p) = Identifier \<or> isKw ''if'' p \<or> isKw ''return'' p \<or>
    isKw ''put'' p \<or> isKw ''get'' p \<or> isKw ''while'' p) = firstOfStatement (tok p)"
  by (auto simp: firstOfStatement_def isSep_def isKw_def)

lemma firstOfStatement_closing:
  "type (tok p) = EndOfFile \<or> isSep ''}'' p \<Longrightarrow> \<not> firstOfStatement (tok p)"
  by (auto simp: firstOfStatement_def isSep_def)

text \<open>
  Claim C1 fails: a lookahead token that cannot start a statement and is neither
  end-of-input nor \<open>}\<close> does not make the list procedure throw. On the input \<open>5\<close> the
  lookahead is an Integer token; \<open>parseStatementList\<close> takes the epsilon production and
  returns, and the whole program parse returns too, with the token unconsumed.
\<close>

theorem statement_list_silent_epsilon:
  "type (tok (new_Parser (new_Lexer ''5'')
      \<lparr>master = True, hideEpsilon = False, hideOpt = False, hideScaffolding = False,
       enabled = {}\<rparr> default_ParserPolicy)) = Integer \<and>
   run (Suc 0) parseStatementList (new_Parser (new_Lexer ''5'')
      \<lparr>master = True, hideEpsilon = False, hideOpt = False, hideScaffolding = False,
       enabled = {}\<rparr> default_ParserPolicy) =
     Some (Returned, (new_Parser (new_Lexer ''5'')
      \<lparr>master = True, hideEpsilon = False, hideOpt = False, hideScaffolding = False,
       enabled = {}\<rparr> default_ParserPolicy)
         \<lparr>out := [Emit (''<Statement List> -> '' @ epsilon)]\<rparr>) \<and>
   map_option fst (parse (Suc (Suc 0)) Start_Program (new_Parser (new_Lexer ''5'')
      default_TraceConfig default_ParserPolicy)) = Some Returned \<and>
   map_option (type \<circ> tok \<circ> snd) (parse (Suc (Suc 0)) Start_Program (new_Parser (new_Lexer ''5'')
      default_TraceConfig default_ParserPolicy)) = Some Integer"
  by code_simp

text \<open>
  Claim C1, amended. After the banner strings are skipped, \<open>parseStatementList\<close> and
  \<open>parseStatementListPrime\<close> close the list (take the epsilon production, consume nothing
  and throw nothing) exactly when the lookahead token is not in the first-set of a
  statement; end-of-input and \<open>}\<close> are two such tokens. Otherwise they parse a statement
  and the rest of the list. The list procedures themselves never throw on their lookahead.
\<close>

theorem statement_list_closes:
  "run (Suc n) parseStatementList p =
     (if firstOfStatement (tok (skipBannerStrings p))
      then steps [
        call (prod Rule_StatementList ''<Statement List> -> <Statement> <Statement List Prime>''),
        run n parseStatement,
        run n parseStatementListPrime] (skipBannerStrings p)
      else call (prod Rule_StatementList (''<Statement List> -> '' @ epsilon))
             (skipBannerStrings p)) \<and>
   run (Suc n) parseStatementListPrime p =
     (if firstOfStatement (tok (skipBannerStrings p))
      then steps [
        call (prod Rule_StatementListPrime
          ''<Statement List Prime> -> <Statement> <Statement List Prime>''),
        run n parseStatement,
        run n parseStatementListPrime] (skipBannerStrings p)
      else call (prod Rule_StatementListPrime (''<Statement List Prime> -> '' @ epsilon))
             (skipBannerStrings p))"
proof -
  let ?q = "skipBannerStrings p"
  have c: "type (tok ?q) = EndOfFile \<or> isSep ''}'' ?q \<Longrightarrow> \<not> firstOfStatement (tok ?q)"
    by (rule firstOfStatement_closing)
  show ?thesis
    using c by (auto simp: steps_call steps_single firstOfStatement_test)
qed

text \<open>
  With tracing on, an empty allow-set and no hiding flag set, \<open>prod\<close> emits every
  production line.
\<close>

lemma prod_empty_allow_set:
  "master (trace p) \<Longrightarrow> enabled (trace p) = {} \<Longrightarrow> \<not> hideEpsilon (trace p) \<Longrightarrow>
   \<not> hideOpt (trace p) \<Longrightarrow> \<not> hideScaffolding (trace p) \<Longrightarrow>
   prod r text p = emit text p"
  by (simp add: prod_def)

text \<open>
  \<open>parseRelop\<close> does not go through \<open>prod\<close>: it emits its line only when the rule is a
  member of the allow-set, so with the empty allow-set the line is never emitted.
\<close>

lemma parseRelop_empty_allow_set:
  "enabled (trace p) = {} \<Longrightarrow>
   isOp ''=='' p \<or> isOp ''!='' p \<or> isOp ''>'' p \<or> isOp ''<'' p \<or> isOp ''<='' p \<or> isOp ''>='' p \<Longrightarrow>
   run (Suc n) parseRelop p = Some (Returned, Parser_advance (echoToken p))"
  by (simp add: steps_call steps.simps call_def)

text \<open>
  Claim C2, at the statement \<open>while (a == b) a = 1;\<close> with tracing on, the empty
  allow-set and only the epsilon lines hidden: the parse succeeds and every procedure
  that goes through \<open>prod\<close> emits its line, but between the echo of \<open>a\<close> and the echo
  of \<open>==\<close> no line \<open><Relop> -> ==\<close> is emitted.
\<close>

theorem relop_line_missing:
  "map_option (\<lambda>r. (fst r, out (snd r)))
     (parse 10 Start_Statement (new_Parser (new_Lexer ''while (a == b) a = 1;'')
        \<lparr>master = True, hideEpsilon = True, hideOpt = False, hideScaffolding = False,
         enabled = {}\<rparr> default_ParserPolicy)) =
   Some (Returned,
     [Emit ''<Statement> -> <While>'',
      Emit ''<While> -> while ( <Condition> ) <Statement>'',
      Cout ''Token: Keyword Lexeme: while'',
      Cout ''Token: Separator Lexeme: ('',
      Emit ''<Condition> -> <Expression> <Relop> <Expression>'',
      Emit ''<Expression> -> <Term> <Expression Prime>'',
      Emit ''<Term> -> <Factor> <Term Prime>'',
      Emit ''<Factor> -> <Primary>'',
      Emit ''<Primary> -> <Identifier> <Primary Prime>'',
      Cout ''Token: Identifier Lexeme: a'',
      Cout ''Token: Operator Lexeme: =='',
      Emit ''<Expression> -> <Term> <Expression Prime>'',
      Emit ''<Term> -> <Factor> <Term Prime>'',
      Emit ''<Factor> -> <Primary>'',
      Emit ''<Primary> -> <Identifier> <Primary Prime>'',
      Cout ''Token: Identifier Lexeme: b'',
      Cout ''Token: Separator Lexeme: )'',
      Emit ''<Statement> -> <Assign>'',
      Emit ''<Assign> -> <Identifier> = <Expression> ;'',
      Cout ''Token: Identifier Lexeme: a'',
      Cout ''Token: Operator Lexeme: ='',
      Emit ''<Expression> -> <Term> <Expression Prime>'',
      Emit ''<Term> -> <Factor> <Term Prime>'',
      Emit ''<Factor> -> <Primary>'',
      Emit ''<Primary> -> <Integer>'',
      Cout ''Token: Integer Lexeme: 1'',
      Cout ''Token: Separator Lexeme: ;''])"
  by code_simp

lemma steps_echo_advance:
  "steps (call echoToken # call Parser_advance # fs) = steps (call (Parser_advance \<circ> echoToken) # fs)"
  by (rule ext) (simp add: steps.simps call_def)

lemma steps_echo_advance2:
  "steps (f # call echoToken # call Parser_advance # fs) =
   steps (f # call (Parser_advance \<circ> echoToken) # fs)"
  by (rule ext) (simp add: steps.simps steps_echo_advance split: option.splits outcome.splits)

lemma expect_alt:
  "expectIdentifier =
     (\<lambda>p. if type (tok p) \<noteq> Identifier then errorHere ''identifier expected'' p
          else call (Parser_advance \<circ> echoToken) p)"
  "expectKw s =
     (\<lambda>p. if \<not> isKw s p then errorHere ([CHR 0x27] @ s @ [CHR 0x27] @ '' expected'') p
          else call (Parser_advance \<circ> echoToken) p)"
  "expectOp s =
     (\<lambda>p. if \<not> isOp s p then errorHere (''operator '' @ [CHR 0x27] @ s @ [CHR 0x27] @ '' expected'') p
          else call (Parser_advance \<circ> echoToken) p)"
  "expectSep s =
     (\<lambda>p. if \<not> isSep s p then errorHere (''separator '' @ [CHR 0x27] @ s @ [CHR 0x27] @ '' expected'') p
          else call (Parser_advance \<circ> echoToken) p)"
  by (rule ext, simp add: expectIdentifier_def expectKw_def expectOp_def expectSep_def)+

text \<open>
  Every procedure body is built from a few pieces: the production line, the banner loop,
  the echoed consumption of the lookahead, the throw, blocks, two-way branches, the
  unechoed consumption of a banner string in \<open>parseStatement\<close>, and the line of
  \<open>parseRelop\<close>. A property of parser actions that holds of the pieces and is kept by the
  combinations holds of every procedure, whatever the budget.
\<close>

lemma run_closed:
  fixes Q :: "(Parser \<Rightarrow> result) \<Rightarrow> bool"
  assumes none: "Q (\<lambda>p. None)"
    and prd: "\<And>r t. Q (call (prod r t))"
    and skp: "Q (call skipBannerStrings)"
    and csm: "Q (call (Parser_advance \<circ> echoToken))"
    and err: "\<And>m. Q (errorHere m)"
    and stp: "\<And>fs. list_all Q fs \<Longrightarrow> Q (steps fs)"
    and ite: "\<And>c f g. Q f \<Longrightarrow> Q g \<Longrightarrow> Q (\<lambda>p. if c p then f p else g p)"
    and ban: "\<And>f t. Q f \<Longrightarrow>
               Q (\<lambda>p. if type (tok p) = String
                       then steps [call Parser_advance, call (prod Rule_Statement t)] p
                       else f p)"
    and rel: "Q (call (\<lambda>p. if master (trace p) \<and> Rule_Relop \<in> enabled (trace p)
                            then emit (''<Relop> -> '' @ lexeme (tok p)) p else p))"
  shows "Q (run n f)"
proof (induction n arbitrary: f)
  case 0
  show ?case by (simp add: none)
next
  case (Suc n)
  note rules = prd skp csm err stp ite rel Suc.IH conjI TrueI
  show ?case
  proof (cases f)
    case parseStatement
    show ?thesis
      unfolding parseStatement run.simps
      by (rule ban) (intro rules | simp only: list.pred_inject)+
  qed (simp_all only: run.simps steps_echo_advance steps_echo_advance2 expect_alt,
       (intro rules | simp only: list.pred_inject)+)
qed

section \<open>The token echo and the scanner's token stream\<close>

lemma echoes_append: "echoes (xs @ ys) = echoes xs @ echoes ys"
  by (induction xs rule: echoes.induct) simp_all

lemma consumed_quiet:
  assumes "tok p' = tok p" and "lexer p' = lexer p" and "echoes (out p') = echoes (out p)"
  shows "consumed p p' [] []"
  using assms by (simp add: consumed_def pending_def)

lemma consumed_trans:
  assumes "consumed p q cs es" and "consumed q r cs' es'" and "policy q = policy p"
  shows "consumed p r (cs @ cs') (es @ es')"
proof -
  have 1: "pending p = (cs @ cs') @ pending r"
    using assms(1,2) by (simp add: consumed_def)
  have 2: "echoes (out r) =
      echoes (out p) @ (if echoTokens (policy p) then map echoLine (es @ es') else [])"
    using assms by (simp add: consumed_def)
  have 3: "subseq (es @ es') (cs @ cs')"
    using assms(1,2) by (simp add: consumed_def list_emb_append_mono)
  have 4: "filter (\<lambda>t. type t \<noteq> String) (es @ es') = filter (\<lambda>t. type t \<noteq> String) (cs @ cs')"
    using assms(1,2) by (simp add: consumed_def)
  show ?thesis unfolding consumed_def using 1 2 3 4 by blast
qed

lemma pending_advance:
  assumes "type (tok p) \<noteq> EndOfFile"
  shows "pending p = tok p # pending (Parser_advance p)"
proof -
  obtain t lx where n: "nextToken (lexer p) = (t, lx)" by (cases "nextToken (lexer p)")
  have "tokens (lexer p) = (if type t = EndOfFile then [] else t # tokens lx)"
    using n by (subst tokens.simps) simp
  then show ?thesis using assms n
    by (simp add: pending_def Parser_advance_def)
qed

lemma lookaheadOk_advance: "lookaheadOk (Parser_advance p)"
proof -
  obtain t lx where n: "nextToken (lexer p) = (t, lx)" by (cases "nextToken (lexer p)")
  have "type t = EndOfFile \<Longrightarrow> eof lx"
    using nextToken_EndOfFile_eof [of "lexer p"] n by simp
  then show ?thesis using n by (auto simp: lookaheadOk_def Parser_advance_def)
qed

lemma advance_at_end:
  assumes "lookaheadOk p" and "type (tok p) = EndOfFile"
  shows "pending (Parser_advance p) = []"
proof -
  have "eof (lexer p)" using assms by (simp add: lookaheadOk_def)
  then show ?thesis
    by (simp add: pending_def Parser_advance_def nextToken_eof)
qed

lemma echoFaithful_none: "echoFaithful (\<lambda>p. None)"
  by (simp add: echoFaithful_def)

lemma echoFaithful_quiet:
  assumes "\<And>p. tok (g p) = tok p" and "\<And>p. lexer (g p) = lexer p"
    and "\<And>p. policy (g p) = policy p" and "\<And>p. echoes (out (g p)) = echoes (out p)"
  shows "echoFaithful (call g)"
  unfolding echoFaithful_def call_def
proof (intro allI impI)
  fix p r p'
  assume a: "lookaheadOk p \<and> Some (Returned, g p) = Some (r, p')"
  then have p': "p' = g p" by simp
  have "consumed p p' [] []" unfolding p' by (rule consumed_quiet) (simp_all add: assms)
  moreover have "lookaheadOk p'" using a by (simp add: p' lookaheadOk_def assms)
  ultimately show "lookaheadOk p' \<and> policy p' = policy p \<and> (\<exists>cs es. consumed p p' cs es)"
    by (auto simp: p' assms)
qed

lemma echoFaithful_prod: "echoFaithful (call (prod r t))"
  by (rule echoFaithful_quiet) (simp_all add: prod_def emit_def echoes_append)

lemma echoFaithful_relop:
  "echoFaithful (call (\<lambda>p. if master (trace p) \<and> Rule_Relop \<in> enabled (trace p)
                            then emit (''<Relop> -> '' @ lexeme (tok p)) p else p))"
  by (rule echoFaithful_quiet) (simp_all add: emit_def echoes_append)

lemma echoFaithful_errorHere: "echoFaithful (errorHere m)"
  unfolding echoFaithful_def errorHere_def
proof (intro allI impI)
  fix p r p'
  assume a: "lookaheadOk p \<and> Some (Thrown (ParseError (errorMessage m (tok p))), p) = Some (r, p')"
  then have p': "p' = p" by simp
  have "consumed p p [] []" by (rule consumed_quiet) simp_all
  then show "lookaheadOk p' \<and> policy p' = policy p \<and> (\<exists>cs es. consumed p p' cs es)"
    using a p' by auto
qed

lemma echoFaithfulD:
  "echoFaithful f \<Longrightarrow> lookaheadOk p \<Longrightarrow> f p = Some (r, p') \<Longrightarrow>
   lookaheadOk p' \<and> policy p' = policy p \<and> (\<exists>cs es. consumed p p' cs es)"
  unfolding echoFaithful_def by blast

lemma echoFaithfulI:
  "(\<And>p r p'. lookaheadOk p \<Longrightarrow> f p = Some (r, p') \<Longrightarrow>
      lookaheadOk p' \<and> policy p' = policy p \<and> (\<exists>cs es. consumed p p' cs es)) \<Longrightarrow>
   echoFaithful f"
  unfolding echoFaithful_def by blast

lemma echoFaithful_if:
  assumes "echoFaithful f" and "echoFaithful g"
  shows "echoFaithful (\<lambda>p. if c p then f p else g p)"
proof (rule echoFaithfulI)
  fix p r p'
  assume a: "lookaheadOk p" and b: "(if c p then f p else g p) = Some (r, p')"
  show "lookaheadOk p' \<and> policy p' = policy p \<and> (\<exists>cs es. consumed p p' cs es)"
  proof (cases "c p")
    case True
    then have "f p = Some (r, p')" using b by simp
    then show ?thesis by (rule echoFaithfulD [OF assms(1) a])
  next
    case False
    then have "g p = Some (r, p')" using b by simp
    then show ?thesis by (rule echoFaithfulD [OF assms(2) a])
  qed
qed

lemma policy_advance: "policy (Parser_advance p) = policy p"
  by (simp add: Parser_advance_def split: prod.splits)

lemma out_advance: "out (Parser_advance p) = out p"
  by (simp add: Parser_advance_def split: prod.splits)

text \<open>The echoed consumption of the lookahead: one token consumed, the same token echoed.\<close>

lemma consumed_echo_advance:
  assumes "lookaheadOk p"
  shows "\<exists>cs es. consumed p (Parser_advance (echoToken p)) cs es"
proof (cases "type (tok p) = EndOfFile")
  case True
  have e: "echoToken p = p" using True by (simp add: echoToken_def)
  have "pending p = []" using True by (simp add: pending_def)
  moreover have "pending (Parser_advance p) = []" by (rule advance_at_end [OF assms True])
  ultimately have "consumed p (Parser_advance p) [] []"
    by (simp add: consumed_def out_advance)
  then show ?thesis unfolding e by blast
next
  case False
  let ?q = "echoToken p"
  have q: "tok ?q = tok p" "lexer ?q = lexer p" by (simp_all add: echoToken_def)
  have pq: "pending ?q = pending p" by (simp add: pending_def q)
  have "pending ?q = tok ?q # pending (Parser_advance ?q)"
    by (rule pending_advance) (simp add: q False)
  then have 1: "pending p = [tok p] @ pending (Parser_advance ?q)"
    unfolding pq q by simp
  have 2: "echoes (out (Parser_advance ?q)) =
             echoes (out p) @ (if echoTokens (policy p) then map echoLine [tok p] else [])"
    using False by (simp add: out_advance echoToken_def echoes_append echoLine_def)
  have "consumed p (Parser_advance ?q) [tok p] [tok p]"
    unfolding consumed_def using 1 2 by simp
  then show ?thesis by blast
qed

lemma echoFaithful_consume: "echoFaithful (call (Parser_advance \<circ> echoToken))"
proof (rule echoFaithfulI)
  fix p r p'
  assume a: "lookaheadOk p" and b: "call (Parser_advance \<circ> echoToken) p = Some (r, p')"
  have p': "p' = Parser_advance (echoToken p)" using b by (simp add: call_def)
  have "policy p' = policy p" by (simp add: p' policy_advance echoToken_def)
  then show "lookaheadOk p' \<and> policy p' = policy p \<and> (\<exists>cs es. consumed p p' cs es)"
    using consumed_echo_advance [OF a] by (simp add: p' lookaheadOk_advance)
qed

text \<open>The unechoed consumption of a String token.\<close>

lemma consumed_drop_string:
  assumes "type (tok p) = String"
  shows "consumed p (Parser_advance p) [tok p] []"
proof -
  have "pending p = tok p # pending (Parser_advance p)"
    by (rule pending_advance) (simp add: assms)
  then show ?thesis using assms by (simp add: consumed_def out_advance)
qed

lemma skipBannerStrings_facts:
  "lookaheadOk p \<Longrightarrow>
   lookaheadOk (skipBannerStrings p) \<and> policy (skipBannerStrings p) = policy p \<and>
   (\<exists>cs. consumed p (skipBannerStrings p) cs [])"
proof (induction p rule: skipBannerStrings.induct)
  case (1 p)
  show ?case
  proof (cases "type (tok p) = String")
    case True
    let ?q = "Parser_advance p"
    have s: "skipBannerStrings p = skipBannerStrings ?q"
      using True by (subst skipBannerStrings.simps) simp
    have ih: "lookaheadOk (skipBannerStrings ?q) \<and> policy (skipBannerStrings ?q) = policy ?q \<and>
              (\<exists>cs. consumed ?q (skipBannerStrings ?q) cs [])"
      using "1.IH" [OF True lookaheadOk_advance] .
    then obtain cs where cs: "consumed ?q (skipBannerStrings ?q) cs []" by blast
    have "consumed p (skipBannerStrings ?q) ([tok p] @ cs) ([] @ [])"
      by (rule consumed_trans [OF consumed_drop_string [OF True] cs policy_advance])
    then have "\<exists>cs. consumed p (skipBannerStrings ?q) cs []" by auto
    then show ?thesis using ih by (simp add: s policy_advance)
  next
    case False
    have s: "skipBannerStrings p = p" using False by (subst skipBannerStrings.simps) simp
    have "consumed p p [] []" by (rule consumed_quiet) simp_all
    then show ?thesis using "1.prems" unfolding s by blast
  qed
qed

lemma echoFaithful_skipBannerStrings: "echoFaithful (call skipBannerStrings)"
proof (rule echoFaithfulI)
  fix p r p'
  assume a: "lookaheadOk p" and b: "call skipBannerStrings p = Some (r, p')"
  have p': "p' = skipBannerStrings p" using b by (simp add: call_def)
  show "lookaheadOk p' \<and> policy p' = policy p \<and> (\<exists>cs es. consumed p p' cs es)"
    using skipBannerStrings_facts [OF a] unfolding p' by blast
qed

lemma echoFaithful_steps: "list_all echoFaithful fs \<Longrightarrow> echoFaithful (steps fs)"
proof (induction fs)
  case Nil
  show ?case
  proof (rule echoFaithfulI)
    fix p r p'
    assume a: "lookaheadOk p" and b: "steps [] p = Some (r, p')"
    have p': "p' = p" using b by (simp add: steps.simps)
    have "consumed p p [] []" by (rule consumed_quiet) simp_all
    then show "lookaheadOk p' \<and> policy p' = policy p \<and> (\<exists>cs es. consumed p p' cs es)"
      using a unfolding p' by blast
  qed
next
  case (Cons f fs)
  then have f: "echoFaithful f" and fs: "echoFaithful (steps fs)" by simp_all
  show ?case
  proof (rule echoFaithfulI)
    fix p r p'
    assume a: "lookaheadOk p" and b: "steps (f # fs) p = Some (r, p')"
    show "lookaheadOk p' \<and> policy p' = policy p \<and> (\<exists>cs es. consumed p p' cs es)"
    proof (cases "f p")
      case None
      then show ?thesis using b by (simp add: steps.simps)
    next
      case (Some x)
      obtain oc q where x: "x = (oc, q)" by (cases x)
      have fq: "f p = Some (oc, q)" using Some x by simp
      note q = echoFaithfulD [OF f a fq]
      show ?thesis
      proof (cases oc)
        case Returned
        then have "steps fs q = Some (r, p')" using b fq by (simp add: steps.simps)
        note r = echoFaithfulD [OF fs _ this]
        from q obtain cs es where 1: "consumed p q cs es" by blast
        from r q obtain cs' es' where 2: "consumed q p' cs' es'" by blast
        have "consumed p p' (cs @ cs') (es @ es')"
          using consumed_trans [OF 1 2] q by blast
        then show ?thesis using q r by auto
      next
        case (Thrown e)
        then have "p' = q" using b fq by (simp add: steps.simps)
        then show ?thesis using q by simp
      qed
    qed
  qed
qed

lemma echoFaithful_banner:
  assumes "echoFaithful f"
  shows "echoFaithful (\<lambda>p. if type (tok p) = String
                           then steps [call Parser_advance, call (prod Rule_Statement t)] p
                           else f p)"
proof (rule echoFaithfulI)
  fix p r p'
  assume a: "lookaheadOk p"
    and b: "(if type (tok p) = String
             then steps [call Parser_advance, call (prod Rule_Statement t)] p else f p) = Some (r, p')"
  show "lookaheadOk p' \<and> policy p' = policy p \<and> (\<exists>cs es. consumed p p' cs es)"
  proof (cases "type (tok p) = String")
    case True
    let ?q = "Parser_advance p"
    have c: "call (prod Rule_Statement t) ?q = Some (r, p')"
      using b True by (simp add: steps_call steps_single)
    note r = echoFaithfulD [OF echoFaithful_prod lookaheadOk_advance c]
    then obtain cs es where 2: "consumed ?q p' cs es" by blast
    have "consumed p p' ([tok p] @ cs) ([] @ es)"
      by (rule consumed_trans [OF consumed_drop_string [OF True] 2 policy_advance])
    then show ?thesis using r by (auto simp: policy_advance)
  next
    case False
    then have "f p = Some (r, p')" using b by simp
    then show ?thesis by (rule echoFaithfulD [OF assms a])
  qed
qed

lemma echoFaithful_run: "echoFaithful (run n f)"
  by (rule run_closed)
    (simp_all add: echoFaithful_none echoFaithful_prod echoFaithful_skipBannerStrings
      echoFaithful_consume echoFaithful_errorHere echoFaithful_steps echoFaithful_if
      echoFaithful_banner echoFaithful_relop)

lemma pending_new_Parser: "pending (new_Parser lx tr po) = tokens lx"
proof -
  obtain t lx' where n: "nextToken lx = (t, lx')" by (cases "nextToken lx")
  have "tokens lx = (if type t = EndOfFile then [] else t # tokens lx')"
    using n by (subst tokens.simps) simp
  then show ?thesis using n by (simp add: pending_def new_Parser_def Parser_advance_def)
qed

lemma new_Parser_fields:
  "policy (new_Parser lx tr po) = po" "out (new_Parser lx tr po) = []"
  "lookaheadOk (new_Parser lx tr po)"
  by (simp_all add: new_Parser_def policy_advance out_advance lookaheadOk_advance)

text \<open>
  Claim C4 fails. (1) A program that is one banner string parses successfully and echoes
  nothing, so re-lexing the echo gives no token, while the scanner produces a String
  token. (2) In \<open>x = "a b";\<close> the string is echoed with the lexeme \<open>a b\<close>, without its
  quotes; the echoed lexemes concatenated are \<open>x=a b;\<close>, which re-lexes to five tokens
  with two Identifiers where the scanner produced four tokens with one String.
\<close>

theorem echo_relex_differs:
  "map_option fst (parse 2 Start_Program
     (new_Parser (new_Lexer ([CHR 0x22] @ ''hi'' @ [CHR 0x22])) default_TraceConfig
        default_ParserPolicy)) = Some Returned \<and>
   map_option (echoes \<circ> out \<circ> snd) (parse 2 Start_Program
     (new_Parser (new_Lexer ([CHR 0x22] @ ''hi'' @ [CHR 0x22])) default_TraceConfig
        default_ParserPolicy)) = Some [] \<and>
   tokens (new_Lexer []) = [] \<and>
   map (\<lambda>t. (type t, lexeme t)) (tokens (new_Lexer ([CHR 0x22] @ ''hi'' @ [CHR 0x22]))) =
     [(String, ''hi'')] \<and>
   map_option fst (parse 9 Start_Program
     (new_Parser (new_Lexer (''x = '' @ [CHR 0x22] @ ''a b'' @ [CHR 0x22] @ '';''))
        default_TraceConfig default_ParserPolicy)) = Some Returned \<and>
   map_option (echoes \<circ> out \<circ> snd) (parse 9 Start_Program
     (new_Parser (new_Lexer (''x = '' @ [CHR 0x22] @ ''a b'' @ [CHR 0x22] @ '';''))
        default_TraceConfig default_ParserPolicy)) =
     Some [''Token: Identifier Lexeme: x'', ''Token: Operator Lexeme: ='',
           ''Token: String Lexeme: a b'', ''Token: Separator Lexeme: ;''] \<and>
   map (\<lambda>t. (type t, lexeme t)) (tokens (new_Lexer (''x'' @ ''='' @ ''a b'' @ '';''))) =
     [(Identifier, ''x''), (Operator, ''=''), (Identifier, ''a''), (Identifier, ''b''),
      (Separator, '';'')] \<and>
   map (\<lambda>t. (type t, lexeme t))
     (tokens (new_Lexer (''x = '' @ [CHR 0x22] @ ''a b'' @ [CHR 0x22] @ '';''))) =
     [(Identifier, ''x''), (Operator, ''=''), (String, ''a b''), (Separator, '';'')]"
  by code_simp

lemma echo_tokens:
  assumes "parse n start (new_Parser (new_Lexer src) tr po) = Some (oc, p')"
  shows "\<exists>cs es. consumed (new_Parser (new_Lexer src) tr po) p' cs es"
proof -
  let ?P = "new_Parser (new_Lexer src) tr po"
  have f: "echoFaithful (parse n start)"
    by (cases start) (simp_all add: parse_def echoFaithful_run)
  have l: "lookaheadOk ?P" by (rule new_Parser_fields(3))
  show ?thesis
    using echoFaithfulD [of "parse n start" ?P oc p'] f l assms by blast
qed

section \<open>Re-lexing a lexeme\<close>

lemma skipSpace_stops: "eof (skipSpace lx) \<or> \<not> isspace (current (skipSpace lx))"
proof (induction lx rule: skipSpace.induct)
  case (1 lx)
  show ?case
  proof (cases "\<not> eof lx \<and> isspace (current lx)")
    case True
    then have "skipSpace lx = skipSpace (advance lx)" by (subst skipSpace.simps) simp
    then show ?thesis using "1.IH" True by simp
  next
    case False
    then have "skipSpace lx = lx" by (subst skipSpace.simps) auto
    then show ?thesis using False by auto
  qed
qed

lemma skipSpace_id: "\<not> isspace (current lx) \<Longrightarrow> skipSpace lx = lx"
  by (subst skipSpace.simps) simp

lemma scanWhile_collects:
  "\<exists>r. fst (scanWhile P acc lx) = acc @ r \<and> (\<forall>x\<in>set r. P x)"
proof (induction P acc lx rule: scanWhile.induct)
  case (1 P acc lx)
  show ?case
  proof (cases "\<not> eof lx \<and> P (current lx)")
    case True
    then have s: "scanWhile P acc lx = scanWhile P (acc @ [current lx]) (advance lx)"
      by (simp add: scanWhile_step)
    obtain r where "fst (scanWhile P (acc @ [current lx]) (advance lx)) = (acc @ [current lx]) @ r"
      and "\<forall>x\<in>set r. P x"
      using "1.IH" True by blast
    then have "fst (scanWhile P acc lx) = acc @ (current lx # r) \<and> (\<forall>x\<in>set (current lx # r). P x)"
      using s True by simp
    then show ?thesis by blast
  next
    case False
    then have "scanWhile P acc lx = (acc, lx)" by (simp add: scanWhile_stop)
    then show ?thesis by simp
  qed
qed

lemma scanWhile_collects_first:
  assumes "\<not> eof lx" and "P (current lx)"
  shows "\<exists>r. fst (scanWhile P acc lx) = acc @ current lx # r \<and> (\<forall>x\<in>set r. P x)"
proof -
  obtain r where "fst (scanWhile P (acc @ [current lx]) (advance lx)) = (acc @ [current lx]) @ r"
    and "\<forall>x\<in>set r. P x"
    using scanWhile_collects [of P "acc @ [current lx]" "advance lx"] by blast
  then show ?thesis using scanWhile_step [of lx P acc] assms by auto
qed

lemma advance_Cons:
  "\<not> eof lx \<Longrightarrow> input lx = c # cs \<Longrightarrow>
   \<not> eof (advance lx) \<and> current (advance lx) = c \<and> input (advance lx) = cs"
  by (simp add: advance_def)

lemma advance_Nil: "input lx = [] \<Longrightarrow> eof (advance lx)"
  by (simp add: advance_def)

lemma scanWhile_all:
  "\<not> eof lx \<Longrightarrow> \<forall>x\<in>set (current lx # input lx). P x \<Longrightarrow>
   fst (scanWhile P acc lx) = acc @ current lx # input lx \<and> eof (snd (scanWhile P acc lx))"
proof (induction "input lx" arbitrary: lx acc)
  case Nil
  have "eof (advance lx)" using Nil(1) by (simp add: advance_Nil)
  then show ?case using Nil by (simp add: scanWhile_step scanWhile_stop)
next
  case (Cons c cs)
  have a: "\<not> eof (advance lx)" "current (advance lx) = c" "input (advance lx) = cs"
    using advance_Cons [OF Cons(3) Cons(2) [symmetric]] by simp_all
  have "\<forall>x\<in>set (current (advance lx) # input (advance lx)). P x"
    using Cons(4) Cons(2) [symmetric] a by simp
  then have "fst (scanWhile P (acc @ [current lx]) (advance lx)) =
          (acc @ [current lx]) @ current (advance lx) # input (advance lx) \<and>
        eof (snd (scanWhile P (acc @ [current lx]) (advance lx)))"
    using Cons(1) [of "advance lx" "acc @ [current lx]"] a by simp
  then show ?case using Cons(2) [symmetric] Cons(3) Cons(4) a
    by (simp add: scanWhile_step)
qed

lemma advance_scanWhile_all:
  assumes "\<not> eof lx" and "\<forall>x\<in>set (input lx). P x"
  shows "fst (scanWhile P acc (advance lx)) = acc @ input lx \<and>
         eof (snd (scanWhile P acc (advance lx)))"
proof (cases "input lx")
  case Nil
  then show ?thesis by (simp add: advance_Nil scanWhile_stop)
next
  case (Cons c cs)
  note a = advance_Cons [OF assms(1) Cons]
  have "\<forall>x\<in>set (current (advance lx) # input (advance lx)). P x"
    using assms(2) Cons a by simp
  then show ?thesis using scanWhile_all [of "advance lx" P acc] a Cons by simp
qed

lemma scanWhile_until:
  "\<not> eof lx \<Longrightarrow> current lx # input lx = xs @ y # ys \<Longrightarrow> \<forall>x\<in>set xs. P x \<Longrightarrow> \<not> P y \<Longrightarrow>
   fst (scanWhile P acc lx) = acc @ xs \<and> \<not> eof (snd (scanWhile P acc lx)) \<and>
   current (snd (scanWhile P acc lx)) = y \<and> input (snd (scanWhile P acc lx)) = ys"
proof (induction xs arbitrary: lx acc)
  case Nil
  then show ?case by (simp add: scanWhile_stop)
next
  case (Cons x xs)
  have c: "current lx = x" and i: "input lx = xs @ y # ys" using Cons(3) by simp_all
  obtain d ds where d: "input lx = d # ds" using i by (cases xs) auto
  note a = advance_Cons [OF Cons(2) d]
  have "current (advance lx) # input (advance lx) = xs @ y # ys" using a d i by simp
  then have "fst (scanWhile P (acc @ [x]) (advance lx)) = (acc @ [x]) @ xs \<and>
      \<not> eof (snd (scanWhile P (acc @ [x]) (advance lx))) \<and>
      current (snd (scanWhile P (acc @ [x]) (advance lx))) = y \<and>
      input (snd (scanWhile P (acc @ [x]) (advance lx))) = ys"
    using Cons(1) [of "advance lx" "acc @ [x]"] a Cons(4) Cons(5) by simp
  moreover have "scanWhile P acc lx = scanWhile P (acc @ [x]) (advance lx)"
    using scanWhile_step [of lx P acc] Cons(2) Cons(4) c by simp
  ultimately show ?case by simp
qed

lemma new_Lexer_Cons:
  "\<not> eof (new_Lexer (c # cs)) \<and> current (new_Lexer (c # cs)) = c \<and>
   input (new_Lexer (c # cs)) = cs"
  by (simp add: new_Lexer_def advance_def)

lemma relexesI:
  assumes "nextToken (new_Lexer l) = mkToken ty l lx'" and "eof lx'"
    and "type t = ty" and "lexeme t = l"
  shows "relexes t"
  using assms by (simp add: relexes_def mkToken_def nextToken_eof)

lemma nextToken_at:
  "\<not> eof lx \<Longrightarrow> \<not> isspace (current lx) \<Longrightarrow>
   nextToken lx =
     (if current lx = CHR 0x22 then scanString lx
      else if current lx = CHR ''.'' \<and> isdigit (peek lx) then scanRealStartingWithDot lx
      else if isLetter (current lx) then scanIdentifierFSM lx
      else if isdigit (current lx) then scanNumberFSM lx
      else if isSeparator (current lx) \<or> isOperatorStart (current lx) then scanOpOrSep lx
      else mkToken Unknown [current lx] (advance lx))"
  by (simp add: nextToken_def skipSpace_id)

lemma nextToken_skipSpace: "nextToken (skipSpace lx) = nextToken lx"
proof -
  have "skipSpace (skipSpace lx) = skipSpace lx"
    using skipSpace_stops [of lx] skipSpace_eof [of "skipSpace lx"] skipSpace_id [of "skipSpace lx"]
    by blast
  then show ?thesis by (simp add: nextToken_def)
qed

lemma peek_new_Lexer:
  "peek (new_Lexer [c]) = CHR 0xFF" "peek (new_Lexer (c # d # ds)) = d"
  by (simp_all add: peek_def new_Lexer_def advance_def)

lemma peek_digit: "isdigit (peek lx) \<Longrightarrow> \<exists>d ds. input lx = d # ds \<and> isdigit d"
  by (cases "input lx") (simp_all add: peek_def isdigit_def)

lemma letter_facts:
  "isLetter c \<Longrightarrow> c \<noteq> CHR 0x22 \<and> c \<noteq> CHR ''.''"
  by (auto simp: isLetter_def)

lemma digit_facts:
  "isdigit c \<Longrightarrow> c \<noteq> CHR 0x22 \<and> c \<noteq> CHR ''.'' \<and> \<not> isLetter c"
  by (auto simp: isdigit_def isLetter_def less_eq_char_def)

lemma dot_facts:
  "\<not> isdigit (CHR ''.'')" "\<not> isspace (CHR ''.'')" "CHR ''.'' \<noteq> CHR 0x22"
  "\<not> isdigit (CHR 0xFF)"
  by (simp_all add: isdigit_def isspace_def)

lemma relexes_identifier:
  assumes "\<not> eof s" and "\<not> isspace (current s)" and "isLetter (current s)"
  shows "relexes (fst (scanIdentifierFSM s))"
proof -
  let ?c = "current s"
  obtain l lx1 where w: "scanWhile isIdentRest [?c] (advance s) = (l, lx1)"
    by (cases "scanWhile isIdentRest [?c] (advance s)")
  obtain r where r: "l = ?c # r" and rr: "\<forall>x\<in>set r. isIdentRest x"
    using scanWhile_collects [of isIdentRest "[?c]" "advance s"] w by auto
  let ?ty = "if isKeyword l then Keyword else Identifier"
  have t: "scanIdentifierFSM s = mkToken ?ty l lx1"
    using w by (simp add: scanIdentifierFSM_def)
  let ?s' = "new_Lexer l"
  note n = new_Lexer_Cons [of ?c r]
  have "fst (scanWhile isIdentRest [?c] (advance ?s')) = [?c] @ input ?s' \<and>
        eof (snd (scanWhile isIdentRest [?c] (advance ?s')))"
    by (rule advance_scanWhile_all) (simp_all add: r n rr)
  then obtain lx2 where w2: "scanWhile isIdentRest [?c] (advance ?s') = (l, lx2)" and e: "eof lx2"
    by (cases "scanWhile isIdentRest [?c] (advance ?s')") (simp add: r n)
  have "nextToken ?s' = scanIdentifierFSM ?s'"
    using n assms(2,3) letter_facts [OF assms(3)] by (simp add: nextToken_at r)
  also have "\<dots> = mkToken ?ty l lx2"
    using w2 n by (simp add: scanIdentifierFSM_def r)
  finally show ?thesis
    by (rule relexesI [OF _ e]) (simp_all add: t mkToken_def)
qed

lemma relexes_real_dot:
  assumes "\<not> eof s" and "current s = CHR ''.''" and "isdigit (peek s)"
  shows "relexes (fst (scanRealStartingWithDot s))"
proof -
  obtain d ds where i: "input s = d # ds" and d: "isdigit d"
    using peek_digit [OF assms(3)] by blast
  note a = advance_Cons [OF assms(1) i]
  obtain l lx1 where w: "scanWhile isdigit [CHR ''.''] (advance s) = (l, lx1)"
    by (cases "scanWhile isdigit [CHR ''.''] (advance s)")
  obtain r where r: "l = CHR ''.'' # d # r" and rr: "\<forall>x\<in>set r. isdigit x"
    using scanWhile_collects_first [of "advance s" isdigit "[CHR ''.'']"] a d w by auto
  have t: "scanRealStartingWithDot s = mkToken Real l lx1"
    using w assms(2) by (simp add: scanRealStartingWithDot_def)
  let ?s' = "new_Lexer l"
  note n = new_Lexer_Cons [of "CHR ''.''" "d # r"]
  have "fst (scanWhile isdigit [CHR ''.''] (advance ?s')) = [CHR ''.''] @ input ?s' \<and>
        eof (snd (scanWhile isdigit [CHR ''.''] (advance ?s')))"
    by (rule advance_scanWhile_all) (simp_all add: r n rr d)
  then obtain lx2 where w2: "scanWhile isdigit [CHR ''.''] (advance ?s') = (l, lx2)" and e: "eof lx2"
    by (cases "scanWhile isdigit [CHR ''.''] (advance ?s')") (simp add: r n)
  have "nextToken ?s' = scanRealStartingWithDot ?s'"
    using n d by (simp add: nextToken_at r dot_facts peek_new_Lexer)
  also have "\<dots> = mkToken Real l lx2"
    using w2 n by (simp add: scanRealStartingWithDot_def r)
  finally show ?thesis
    by (rule relexesI [OF _ e]) (simp_all add: t mkToken_def)
qed

lemma relexes_number:
  assumes "\<not> eof s" and "isdigit (current s)"
  shows "relexes (fst (scanNumberFSM s))"
proof -
  let ?c = "current s"
  note cf = digit_facts [OF assms(2)]
  have sp: "\<not> isspace ?c" using assms(2) by (auto simp: isdigit_def isspace_def less_eq_char_def)
  obtain l1 lx1 where w1: "scanWhile isdigit [] s = (l1, lx1)"
    by (cases "scanWhile isdigit [] s")
  obtain r1 where r1: "l1 = ?c # r1" and rr1: "\<forall>x\<in>set r1. isdigit x"
    using scanWhile_collects_first [of s isdigit "[]"] assms w1 by auto
  show ?thesis
  proof (cases "\<not> eof lx1 \<and> current lx1 = CHR ''.'' \<and> isdigit (peek lx1)")
    case False
    have t: "scanNumberFSM s = mkToken Integer l1 lx1"
      using False by (auto simp: scanNumberFSM_def w1)
    let ?s' = "new_Lexer l1"
    note n = new_Lexer_Cons [of ?c r1]
    have "fst (scanWhile isdigit [] ?s') = [] @ current ?s' # input ?s' \<and>
          eof (snd (scanWhile isdigit [] ?s'))"
      by (rule scanWhile_all) (simp_all add: r1 n rr1 assms(2))
    then obtain lx2 where w2: "scanWhile isdigit [] ?s' = (l1, lx2)" and e: "eof lx2"
      by (cases "scanWhile isdigit [] ?s'") (simp add: r1 n)
    have "nextToken ?s' = scanNumberFSM ?s'"
      using n assms(2) cf sp by (simp add: nextToken_at r1)
    also have "\<dots> = mkToken Integer l1 lx2"
      using w2 e by (simp add: scanNumberFSM_def)
    finally show ?thesis
      by (rule relexesI [OF _ e]) (simp_all add: t mkToken_def)
  next
    case True
    obtain d ds where i: "input lx1 = d # ds" and d: "isdigit d"
      using peek_digit True by blast
    have ne: "\<not> eof lx1" using True by simp
    note a = advance_Cons [OF ne i]
    obtain l2 lx2 where w2: "scanWhile isdigit (l1 @ [CHR ''.'']) (advance lx1) = (l2, lx2)"
      by (cases "scanWhile isdigit (l1 @ [CHR ''.'']) (advance lx1)")
    obtain r2 where r2: "l2 = (l1 @ [CHR ''.'']) @ d # r2" and rr2: "\<forall>x\<in>set r2. isdigit x"
      using scanWhile_collects_first [of "advance lx1" isdigit "l1 @ [CHR ''.'']"] a d w2 by auto
    have t: "scanNumberFSM s = mkToken Real l2 lx2"
      using w1 w2 True by (simp add: scanNumberFSM_def)
    have l2: "l2 = ?c # (r1 @ CHR ''.'' # d # r2)" using r1 r2 by simp
    let ?s' = "new_Lexer l2"
    note n = new_Lexer_Cons [of ?c "r1 @ CHR ''.'' # d # r2"]
    have u: "fst (scanWhile isdigit [] ?s') = [] @ l1 \<and> \<not> eof (snd (scanWhile isdigit [] ?s')) \<and>
          current (snd (scanWhile isdigit [] ?s')) = CHR ''.'' \<and>
          input (snd (scanWhile isdigit [] ?s')) = d # r2"
      by (rule scanWhile_until) (simp_all add: l2 n r1 rr1 assms(2) dot_facts)
    then obtain lx3 where w3: "scanWhile isdigit [] ?s' = (l1, lx3)"
      and s3: "\<not> eof lx3" "current lx3 = CHR ''.''" "input lx3 = d # r2"
      by (cases "scanWhile isdigit [] ?s'") simp
    have "fst (scanWhile isdigit (l1 @ [CHR ''.'']) (advance lx3)) = (l1 @ [CHR ''.'']) @ input lx3 \<and>
          eof (snd (scanWhile isdigit (l1 @ [CHR ''.'']) (advance lx3)))"
      by (rule advance_scanWhile_all) (simp_all add: s3 d rr2)
    then obtain lx4 where w4: "scanWhile isdigit (l1 @ [CHR ''.'']) (advance lx3) = (l2, lx4)"
      and e: "eof lx4"
      by (cases "scanWhile isdigit (l1 @ [CHR ''.'']) (advance lx3)") (simp add: r2 s3)
    have p3: "isdigit (peek lx3)" using s3 d by (simp add: peek_def)
    have "nextToken ?s' = scanNumberFSM ?s'"
      using n assms(2) cf sp by (simp add: nextToken_at l2)
    also have "\<dots> = mkToken Real l2 lx4"
      using w3 w4 s3 p3 by (simp add: scanNumberFSM_def)
    finally show ?thesis
      by (rule relexesI [OF _ e]) (simp_all add: t mkToken_def)
  qed
qed

lemma advance_twice_eof: "eof (advance (advance (new_Lexer [c, p])))"
  by (simp add: new_Lexer_def advance_def)

lemma advance_once_eof: "eof (advance (new_Lexer [c]))"
  by (simp add: new_Lexer_def advance_def)

lemma twoCharOp_facts:
  "twoCharOp c p \<Longrightarrow>
   \<not> isspace c \<and> c \<noteq> CHR 0x22 \<and> c \<noteq> CHR ''.'' \<and> \<not> isLetter c \<and> \<not> isdigit c \<and>
   isOperatorStart c"
  by (auto simp: twoCharOp_def isspace_def isLetter_def isdigit_def isOperatorStart_def)

lemma twoCharOp_eof: "\<not> twoCharOp c (CHR 0xFF)"
  by (simp add: twoCharOp_def)

lemma scanOpOrSep_chain:
  "scanOpOrSep lx =
     (if twoCharOp (current lx) (peek lx)
      then mkToken Operator [current lx, peek lx] (advance (advance lx))
      else if isOperatorStart (current lx) \<and>
              \<not> (current lx = CHR ''!'' \<or> current lx = CHR ''&'' \<or> current lx = CHR ''|'')
      then mkToken Operator [current lx] (advance lx)
      else if isSeparator (current lx)
      then mkToken Separator [current lx] (advance lx)
      else if current lx = CHR ''!'' \<or> current lx = CHR ''&'' \<or> current lx = CHR ''|''
      then mkToken Operator [current lx] (advance lx)
      else mkToken Unknown [current lx] (advance lx))"
  by (simp only: scanOpOrSep_def Let_def twoCharOp_def)

lemma scanOpOrSep_two:
  "twoCharOp (current lx) (peek lx) \<Longrightarrow>
   scanOpOrSep lx = mkToken Operator [current lx, peek lx] (advance (advance lx))"
  by (simp add: scanOpOrSep_chain)

lemma scanOpOrSep_one:
  "\<not> twoCharOp (current lx) (peek lx) \<Longrightarrow>
   scanOpOrSep lx = mkToken (oneCharKind (current lx)) [current lx] (advance lx)"
  by (simp add: scanOpOrSep_chain oneCharKind_def)

lemma relexes_op_sep:
  assumes "\<not> isspace (current s)" and "current s \<noteq> CHR 0x22"
    and "\<not> isLetter (current s)" and "\<not> isdigit (current s)"
    and "isSeparator (current s) \<or> isOperatorStart (current s)"
  shows "relexes (fst (scanOpOrSep s))"
proof (cases "twoCharOp (current s) (peek s)")
  case True
  let ?c = "current s" and ?p = "peek s"
  let ?s' = "new_Lexer [?c, ?p]"
  note n = new_Lexer_Cons [of ?c "[?p]"]
  note f = twoCharOp_facts [OF True]
  have pk: "peek ?s' = ?p" by (simp add: peek_new_Lexer)
  have "nextToken ?s' = scanOpOrSep ?s'"
    using n f by (simp add: nextToken_at)
  also have "\<dots> = mkToken Operator [?c, ?p] (advance (advance ?s'))"
    using scanOpOrSep_two [of ?s'] True n pk by simp
  finally show ?thesis
    by (rule relexesI [OF _ advance_twice_eof])
       (simp_all add: scanOpOrSep_two [OF True] mkToken_def)
next
  case False
  let ?c = "current s"
  let ?s' = "new_Lexer [?c]"
  note n = new_Lexer_Cons [of ?c "[]"]
  have pk: "peek ?s' = CHR 0xFF" by (simp add: peek_new_Lexer)
  have "nextToken ?s' = scanOpOrSep ?s'"
    using n assms pk by (simp add: nextToken_at dot_facts)
  also have "\<dots> = mkToken (oneCharKind ?c) [?c] (advance ?s')"
    using scanOpOrSep_one [of ?s'] n pk twoCharOp_eof [of ?c] by simp
  finally show ?thesis
    by (rule relexesI [OF _ advance_once_eof])
       (simp_all add: scanOpOrSep_one [OF False] mkToken_def)
qed

lemma relexes_unknown:
  assumes "\<not> isspace c" and "c \<noteq> CHR 0x22" and "\<not> isLetter c" and "\<not> isdigit c"
    and "\<not> (isSeparator c \<or> isOperatorStart c)"
  shows "relexes (fst (mkToken Unknown [c] lx))"
proof -
  let ?s' = "new_Lexer [c]"
  note n = new_Lexer_Cons [of c "[]"]
  have pk: "peek ?s' = CHR 0xFF" by (simp add: peek_new_Lexer)
  have "nextToken ?s' = mkToken Unknown [c] (advance ?s')"
    using n assms pk by (simp add: nextToken_at dot_facts)
  then show ?thesis
    by (rule relexesI [OF _ advance_once_eof]) (simp_all add: mkToken_def)
qed

text \<open>Every token the scanner returns, but a String and end-of-input, re-lexes.\<close>

lemma nextToken_relexes:
  assumes "type (fst (nextToken lx)) \<noteq> String" and "type (fst (nextToken lx)) \<noteq> EndOfFile"
  shows "relexes (fst (nextToken lx))"
proof -
  let ?s = "skipSpace lx"
  have ne: "\<not> eof ?s" using assms(2) by (simp add: nextToken_EndOfFile_iff)
  have sp: "\<not> isspace (current ?s)" using skipSpace_stops [of lx] ne by simp
  have nt: "nextToken lx = nextToken ?s" by (simp add: nextToken_skipSpace)
  note at = nextToken_at [OF ne sp]
  have q: "current ?s \<noteq> CHR 0x22"
    using assms(1) type_scanString [of ?s] at nt by auto
  show ?thesis
  proof (cases "current ?s = CHR ''.'' \<and> isdigit (peek ?s)")
    case True
    then have "nextToken lx = scanRealStartingWithDot ?s" using at nt q by simp
    then show ?thesis using relexes_real_dot [OF ne] True by simp
  next
    case nd: False
    show ?thesis
    proof (cases "isLetter (current ?s)")
      case True
      then have "nextToken lx = scanIdentifierFSM ?s" using at nt q nd by simp
      then show ?thesis using relexes_identifier [OF ne sp True] by simp
    next
      case nl: False
      show ?thesis
      proof (cases "isdigit (current ?s)")
        case True
        then have "nextToken lx = scanNumberFSM ?s" using at nt q nd nl by simp
        then show ?thesis using relexes_number [OF ne True] by simp
      next
        case ng: False
        show ?thesis
        proof (cases "isSeparator (current ?s) \<or> isOperatorStart (current ?s)")
          case True
          then have "nextToken lx = scanOpOrSep ?s" using at nt q nd nl ng by simp
          then show ?thesis using relexes_op_sep [OF sp q nl ng True] by simp
        next
          case False
          then have "nextToken lx = mkToken Unknown [current ?s] (advance ?s)"
            using at nt q nd nl ng by simp
          then show ?thesis using relexes_unknown [OF sp q nl ng False] by simp
        qed
      qed
    qed
  qed
qed

lemma tokens_relex:
  "t \<in> set (tokens lx) \<Longrightarrow> type t \<noteq> String \<Longrightarrow> relexes t"
proof (induction lx rule: tokens.induct)
  case (1 lx)
  show ?case
  proof (cases "type (fst (nextToken lx)) = EndOfFile")
    case True
    then have "tokens lx = []" by (subst tokens.simps) simp
    then show ?thesis using "1.prems" by simp
  next
    case False
    then have "tokens lx = fst (nextToken lx) # tokens (snd (nextToken lx))"
      by (subst tokens.simps) simp
    then have "t = fst (nextToken lx) \<or> t \<in> set (tokens (snd (nextToken lx)))"
      using "1.prems"(1) by simp
    then show ?thesis
    proof
      assume "t = fst (nextToken lx)"
      then show ?thesis using nextToken_relexes [of lx] False "1.prems"(2) by simp
    next
      assume "t \<in> set (tokens (snd (nextToken lx)))"
      then show ?thesis using "1.IH" [OF False] "1.prems"(2) by simp
    qed
  qed
qed

text \<open>
  Claim C4, amended. With token echo enabled, if the parse of an input returns, the echo
  lines are, in order, the lines of tokens \<open>es\<close> where the scanner's token stream on that
  input is \<open>cs\<close> followed by the tokens the parser left unconsumed, \<open>es\<close> is \<open>cs\<close> with
  only String tokens left out (the banner strings), and every echoed token that is not a
  String re-lexes: scanning its echoed lexeme alone gives back its kind and lexeme. (A
  String is echoed without its quotes, and lexemes concatenated without the original
  whitespace can merge, so nothing more of the round trip holds.)
\<close>

theorem echo_round_trip:
  assumes "echoTokens po"
    and "parse n start (new_Parser (new_Lexer src) tr po) = Some (Returned, p')"
  shows "\<exists>cs es. tokens (new_Lexer src) = cs @ pending p' \<and>
           echoes (out p') = map echoLine es \<and>
           subseq es cs \<and>
           filter (\<lambda>t. type t \<noteq> String) es = filter (\<lambda>t. type t \<noteq> String) cs \<and>
           (\<forall>t\<in>set es. type t \<noteq> String \<longrightarrow> relexes t)"
proof -
  let ?P = "new_Parser (new_Lexer src) tr po"
  obtain cs es where c: "consumed ?P p' cs es"
    using echo_tokens [OF assms(2)] by blast
  have 1: "tokens (new_Lexer src) = cs @ pending p'"
    using c by (simp add: consumed_def pending_new_Parser)
  have 2: "echoes (out p') = map echoLine es"
    using c assms(1) by (simp add: consumed_def new_Parser_fields)
  have 3: "subseq es cs"
    and 4: "filter (\<lambda>t. type t \<noteq> String) es = filter (\<lambda>t. type t \<noteq> String) cs"
    using c by (simp_all add: consumed_def)
  have "set es \<subseteq> set cs" using list_emb_set [OF 3] by auto
  then have "set es \<subseteq> set (tokens (new_Lexer src))" using 1 by auto
  then have 5: "\<forall>t\<in>set es. type t \<noteq> String \<longrightarrow> relexes t"
    using tokens_relex by blast
  show ?thesis using 1 2 3 4 5 by blast
qed

theorem echo_round_trip_witness:
  "echoTokens default_ParserPolicy \<and>
   map_option (echoes \<circ> out \<circ> snd)
     (parse 9 Start_Program
        (new_Parser (new_Lexer ''x = 1;'') default_TraceConfig default_ParserPolicy)) =
     Some [''Token: Identifier Lexeme: x'', ''Token: Operator Lexeme: ='',
           ''Token: Integer Lexeme: 1'', ''Token: Separator Lexeme: ;''] \<and>
   (\<exists>p' cs es.
      parse 9 Start_Program
        (new_Parser (new_Lexer ''x = 1;'') default_TraceConfig default_ParserPolicy) =
        Some (Returned, p') \<and>
      tokens (new_Lexer ''x = 1;'') = cs @ pending p' \<and>
      echoes (out p') = map echoLine es \<and>
      subseq es cs \<and>
      filter (\<lambda>t. type t \<noteq> String) es = filter (\<lambda>t. type t \<noteq> String) cs \<and>
      (\<forall>t\<in>set es. type t \<noteq> String \<longrightarrow> relexes t))"
proof -
  let ?P = "new_Parser (new_Lexer ''x = 1;'') default_TraceConfig default_ParserPolicy"
  have h1: "echoTokens default_ParserPolicy" by (simp add: default_ParserPolicy_def)
  have ev: "map_option fst (parse 9 Start_Program ?P) = Some Returned"
    by code_simp
  have ec: "map_option (echoes \<circ> out \<circ> snd) (parse 9 Start_Program ?P) =
     Some [''Token: Identifier Lexeme: x'', ''Token: Operator Lexeme: ='',
           ''Token: Integer Lexeme: 1'', ''Token: Separator Lexeme: ;'']"
    by code_simp
  obtain p' where h2: "parse 9 Start_Program ?P = Some (Returned, p')"
    using ev by (cases "parse 9 Start_Program ?P") auto
  show ?thesis
    using h1 ec h2 echo_round_trip [OF h1 h2] by blast
qed

section \<open>Syntax errors\<close>










end
